theory Spec2Isabelle
  imports
    Main
    "HOL-Library.AList"
    "HOL-Library.Char_ord"
    "HOL-Library.List_Lexorder"
    "HOL-Library.Multiset"
    "HOL-Library.Product_Lexorder"
begin

section \<open>The co-purchase recommender of the shop (app/shop/recommender.py)\<close>

text \<open>
  The class \<^verbatim>\<open>Recommender\<close> keeps, in a Redis server, one sorted set per product:
  under the key \<^verbatim>\<open>product:<id>:purchased_with\<close> the ids of the products bought together
  with it, scored by the number of common purchases. The embedding below follows
  the Python source method by method. The Redis server and the Django catalogue
  are outside the repository; they are modelled by what the calls used in the
  source do:

  \<^item> a sorted set is an association list from members to scores. Members are
    product ids: the client sends an integer as its decimal text and the source
    reads it back with \<^verbatim>\<open>int(...)\<close>, so the model keeps the integer and uses its
    decimal text only where the server compares members. Scores are the integers
    the increments by 1 produce;
  \<^item> a key that holds no sorted set and a key that holds an empty one are the same
    thing in Redis, so the database is a total function from keys to lists;
  \<^item> every store call may raise \<^verbatim>\<open>RedisError\<close>: the server state carries the
    outcomes of the calls to come (\<open>faults\<close>: \<open>True\<close> for a call that raises, the
    empty list when every call succeeds), and a call that raises changes nothing
    else;
  \<^item> the server state also records the commands it has received (\<open>calls\<close>), so
    that a statement can speak of the calls an operation issues;
  \<^item> a Python exception is the value \<open>Inl e\<close>; every operation returns its result
    together with the server state it leaves behind.
\<close>

subsection \<open>Python's \<^verbatim>\<open>str\<close> on integers\<close>

definition digit_char :: "nat \<Rightarrow> char" where
  "digit_char d = char_of (48 + d)"

fun str_nat :: "nat \<Rightarrow> string" where
  "str_nat n = (if n < 10 then [digit_char n] else str_nat (n div 10) @ [digit_char (n mod 10)])"

declare str_nat.simps [simp del]

definition str_int :: "int \<Rightarrow> string" where
  "str_int i = (if i < 0 then CHR ''-'' # str_nat (nat (- i)) else str_nat (nat i))"

subsection \<open>Python's slice \<^verbatim>\<open>xs[:k]\<close> and \<^verbatim>\<open>list.index\<close>\<close>

definition slice_to :: "'a list \<Rightarrow> int \<Rightarrow> 'a list" where
  \<comment> \<open>a negative bound counts from the end\<close>
  "slice_to xs k = (if 0 \<le> k then take (nat k) xs else take (length xs - nat (- k)) xs)"

fun index_of :: "'a list \<Rightarrow> 'a \<Rightarrow> nat option" where
  \<comment> \<open>\<^verbatim>\<open>xs.index(x)\<close>: the first position of \<open>x\<close>; \<open>None\<close> where Python raises ValueError\<close>
  "index_of [] x = None"
| "index_of (y # ys) x = (if y = x then Some 0 else map_option Suc (index_of ys x))"

subsection \<open>The Redis server\<close>

datatype error = RedisError | ValueError

type_synonym zset = "(int \<times> int) list"

datatype cmd =
    Ping
  | Zincrby string int int
  | Zrange string
  | Zunionstore string "string list"
  | Zrem string "int list"
  | Delete string

record server =
  db :: "string \<Rightarrow> zset"
  faults :: "bool list"
  calls :: "cmd list"

definition issue :: "cmd \<Rightarrow> server \<Rightarrow> bool \<times> server" where
  \<comment> \<open>the server receives a command; the first component tells whether the call raises\<close>
  "issue c s =
     (case faults s of
        [] \<Rightarrow> (False, s\<lparr>calls := calls s @ [c]\<rparr>)
      | f # fs \<Rightarrow> (f, s\<lparr>faults := fs, calls := calls s @ [c]\<rparr>))"

definition zscore :: "zset \<Rightarrow> int \<Rightarrow> int" where
  \<comment> \<open>the score of a member, 0 for a member that is absent\<close>
  "zscore zs m = (case map_of zs m of None \<Rightarrow> 0 | Some v \<Rightarrow> v)"

definition zadd_incr :: "int \<times> int \<Rightarrow> zset \<Rightarrow> zset" where
  \<comment> \<open>add an amount to a member's score, creating the member if absent\<close>
  "zadd_incr e zs = AList.update (fst e) (zscore zs (fst e) + snd e) zs"

definition zunion :: "zset list \<Rightarrow> zset" where
  \<comment> \<open>element-wise sum of sorted sets (ZUNIONSTORE with its default weights and SUM)\<close>
  "zunion zss = fold zadd_incr (concat zss) []"

definition zrevrange_all :: "zset \<Rightarrow> int list" where
  \<comment> \<open>all members from the highest score to the lowest; members of equal score
      in descending order of their bytes\<close>
  "zrevrange_all zs = map fst (rev (sort_key (\<lambda>e. (snd e, str_int (fst e))) zs))"

definition ping :: "server \<Rightarrow> (error + unit) \<times> server" where
  "ping s = (case issue Ping s of
               (True, s') \<Rightarrow> (Inl RedisError, s')
             | (False, s') \<Rightarrow> (Inr (), s'))"

definition zincrby :: "string \<Rightarrow> int \<Rightarrow> int \<Rightarrow> server \<Rightarrow> (error + int) \<times> server" where
  "zincrby name amount member s =
     (case issue (Zincrby name amount member) s of
        (True, s') \<Rightarrow> (Inl RedisError, s')
      | (False, s') \<Rightarrow>
          (Inr (zscore (db s' name) member + amount),
           s'\<lparr>db := (db s')(name := zadd_incr (member, amount) (db s' name))\<rparr>))"

definition zrange_desc :: "string \<Rightarrow> server \<Rightarrow> (error + int list) \<times> server" where
  \<comment> \<open>\<^verbatim>\<open>zrange(name, 0, -1, desc=True)\<close>\<close>
  "zrange_desc name s =
     (case issue (Zrange name) s of
        (True, s') \<Rightarrow> (Inl RedisError, s')
      | (False, s') \<Rightarrow> (Inr (zrevrange_all (db s' name)), s'))"

definition zunionstore :: "string \<Rightarrow> string list \<Rightarrow> server \<Rightarrow> (error + nat) \<times> server" where
  \<comment> \<open>the server rejects a union of no keys\<close>
  "zunionstore dest keys s =
     (case issue (Zunionstore dest keys) s of
        (True, s') \<Rightarrow> (Inl RedisError, s')
      | (False, s') \<Rightarrow>
          (if keys = [] then (Inl RedisError, s')
           else let u = zunion (map (db s') keys)
                in (Inr (length u), s'\<lparr>db := (db s')(dest := u)\<rparr>)))"

definition zrem :: "string \<Rightarrow> int list \<Rightarrow> server \<Rightarrow> (error + nat) \<times> server" where
  \<comment> \<open>the server rejects a removal of no members\<close>
  "zrem name members s =
     (case issue (Zrem name members) s of
        (True, s') \<Rightarrow> (Inl RedisError, s')
      | (False, s') \<Rightarrow>
          (if members = [] then (Inl RedisError, s')
           else let zs = db s' name; zs' = filter (\<lambda>e. fst e \<notin> set members) zs
                in (Inr (length zs - length zs'), s'\<lparr>db := (db s')(name := zs')\<rparr>)))"

definition delete_key :: "string \<Rightarrow> server \<Rightarrow> (error + nat) \<times> server" where
  \<comment> \<open>\<^verbatim>\<open>redis.delete(name)\<close>\<close>
  "delete_key name s =
     (case issue (Delete name) s of
        (True, s') \<Rightarrow> (Inl RedisError, s')
      | (False, s') \<Rightarrow>
          (Inr (if db s' name = [] then 0 else 1), s'\<lparr>db := (db s')(name := [])\<rparr>))"

subsection \<open>The catalogue\<close>

record product =
  product_id :: int
  name :: string
  available :: bool

definition objects_filter_id_in :: "product list \<Rightarrow> int list \<Rightarrow> product list" where
  \<comment> \<open>\<^verbatim>\<open>Product.objects.filter(id__in=ids)\<close>: the catalogue's records, in the catalogue's order\<close>
  "objects_filter_id_in catalog ids = filter (\<lambda>p. product_id p \<in> set ids) catalog"

subsection \<open>The class \<^verbatim>\<open>Recommender\<close>\<close>

datatype client = Client

record recommender =
  redis :: "client option"

definition init :: "server \<Rightarrow> recommender \<times> server" where
  \<comment> \<open>\<^verbatim>\<open>__init__\<close>: the connection is tested with a ping; a failure leaves \<open>redis = None\<close>\<close>
  "init s = (case ping s of
               (Inl e, s') \<Rightarrow> (\<lparr>redis = None\<rparr>, s')
             | (Inr u, s') \<Rightarrow> (\<lparr>redis = Some Client\<rparr>, s'))"

definition get_product_key :: "int \<Rightarrow> string" where
  "get_product_key pid = ''product:'' @ str_int pid @ '':purchased_with''"

fun bought_inner :: "int \<Rightarrow> int list \<Rightarrow> server \<Rightarrow> (error + unit) \<times> server" where
  \<comment> \<open>the loop over \<open>with_id\<close>\<close>
  "bought_inner pid [] s = (Inr (), s)"
| "bought_inner pid (with_id # rest) s =
     (if pid \<noteq> with_id then
        (case zincrby (get_product_key pid) 1 with_id s of
           (Inl e, s') \<Rightarrow> (Inl e, s')
         | (Inr v, s') \<Rightarrow> bought_inner pid rest s')
      else bought_inner pid rest s)"

fun bought_outer :: "int list \<Rightarrow> int list \<Rightarrow> server \<Rightarrow> (error + unit) \<times> server" where
  \<comment> \<open>the loop over \<open>product_id\<close>; the second argument is the whole of \<open>product_ids\<close>\<close>
  "bought_outer [] product_ids s = (Inr (), s)"
| "bought_outer (pid # rest) product_ids s =
     (case bought_inner pid product_ids s of
        (Inl e, s') \<Rightarrow> (Inl e, s')
      | (Inr u, s') \<Rightarrow> bought_outer rest product_ids s')"

definition products_bought :: "recommender \<Rightarrow> product list \<Rightarrow> server \<Rightarrow> (error + unit) \<times> server" where
  "products_bought self products s =
     (if redis self = None then (Inr (), s)
      else let product_ids = map product_id products
           in bought_outer product_ids product_ids s)"

definition flat_ids :: "int list \<Rightarrow> string" where
  "flat_ids product_ids = concat (map str_int product_ids)"

definition tmp_key :: "int list \<Rightarrow> string" where
  "tmp_key product_ids = ''tmp_'' @ flat_ids product_ids"

definition suggestions_for :: "product list \<Rightarrow> int \<Rightarrow> server \<Rightarrow> (error + int list) \<times> server" where
  \<comment> \<open>the store calls of \<^verbatim>\<open>suggest_products_for\<close>, up to \<open>suggested_ids\<close>\<close>
  "suggestions_for products max_results s =
     (let product_ids = map product_id products in
      if length products = 1 then
        (case zrange_desc (get_product_key (hd product_ids)) s of
           (Inl e, s1) \<Rightarrow> (Inl e, s1)
         | (Inr members, s1) \<Rightarrow> (Inr (slice_to members max_results), s1))
      else
        let keys = map get_product_key product_ids in
        (case zunionstore (tmp_key product_ids) keys s of
           (Inl e, s1) \<Rightarrow> (Inl e, s1)
         | (Inr n, s1) \<Rightarrow>
        (case zrem (tmp_key product_ids) product_ids s1 of
           (Inl e, s2) \<Rightarrow> (Inl e, s2)
         | (Inr n', s2) \<Rightarrow>
        (case zrange_desc (tmp_key product_ids) s2 of
           (Inl e, s3) \<Rightarrow> (Inl e, s3)
         | (Inr members, s3) \<Rightarrow>
        (case delete_key (tmp_key product_ids) s3 of
           (Inl e, s4) \<Rightarrow> (Inl e, s4)
         | (Inr n'', s4) \<Rightarrow> (Inr (slice_to members max_results), s4))))))"

definition sort_by_rank :: "int list \<Rightarrow> product list \<Rightarrow> error + product list" where
  \<comment> \<open>\<^verbatim>\<open>products.sort(key=lambda x: suggested_ids.index(x.id))\<close>: the keys are computed
      first, one per record, then the records are sorted by them, stably\<close>
  "sort_by_rank suggested_ids products =
     (case those (map (\<lambda>x. index_of suggested_ids (product_id x)) products) of
        None \<Rightarrow> Inl ValueError
      | Some ks \<Rightarrow> Inr (map snd (sort_key fst (zip ks products))))"

definition suggest_products_for ::
  "recommender \<Rightarrow> product list \<Rightarrow> int \<Rightarrow> product list \<Rightarrow> server \<Rightarrow> (error + product list) \<times> server" where
  \<comment> \<open>the fourth argument is the catalogue, \<^verbatim>\<open>Product.objects\<close>\<close>
  "suggest_products_for self products max_results catalog s =
     (if redis self = None then (Inr [], s)
      else
        (case suggestions_for products max_results s of
           (Inl e, s') \<Rightarrow> (Inl e, s')
         | (Inr suggested_ids, s') \<Rightarrow>
             (sort_by_rank suggested_ids (objects_filter_id_in catalog suggested_ids), s')))"

fun clear_loop :: "int list \<Rightarrow> server \<Rightarrow> (error + unit) \<times> server" where
  "clear_loop [] s = (Inr (), s)"
| "clear_loop (pid # rest) s =
     (case delete_key (get_product_key pid) s of
        (Inl e, s') \<Rightarrow> (Inl e, s')
      | (Inr n, s') \<Rightarrow> clear_loop rest s')"

definition clear_purchases :: "recommender \<Rightarrow> product list \<Rightarrow> server \<Rightarrow> (error + unit) \<times> server" where
  \<comment> \<open>the second argument is the catalogue, \<^verbatim>\<open>Product.objects\<close>\<close>
  "clear_purchases self catalog s =
     (if redis self = None then (Inr (), s)
      else clear_loop (map product_id catalog) s)"

subsection \<open>Notions used to state the properties\<close>

definition ordered_pairs :: "int list \<Rightarrow> (int \<times> int) list" where
  \<comment> \<open>the pairs \<open>(product_id, with_id)\<close> the two loops of \<open>products_bought\<close> reach the
      increment with, in the order they reach it\<close>
  "ordered_pairs product_ids =
     concat (map (\<lambda>a. map (Pair a) (filter (\<lambda>b. a \<noteq> b) product_ids)) product_ids)"

definition incr_cmd :: "int \<times> int \<Rightarrow> cmd" where
  "incr_cmd e = Zincrby (get_product_key (fst e)) 1 (snd e)"

definition incr_all :: "(int \<times> int) list \<Rightarrow> (string \<Rightarrow> zset) \<Rightarrow> (string \<Rightarrow> zset)" where
  \<comment> \<open>the database after the increments of a list of pairs have taken effect\<close>
  "incr_all ps d =
     fold (\<lambda>e d'. d'(get_product_key (fst e) := zadd_incr (snd e, 1) (d' (get_product_key (fst e))))) ps d"

fun run_incrs :: "(int \<times> int) list \<Rightarrow> server \<Rightarrow> (error + unit) \<times> server" where
  \<comment> \<open>the increments of a list of pairs issued one after the other, up to the first that raises\<close>
  "run_incrs [] s = (Inr (), s)"
| "run_incrs (e # es) s =
     (case zincrby (get_product_key (fst e)) 1 (snd e) s of
        (Inl err, s') \<Rightarrow> (Inl err, s')
      | (Inr v, s') \<Rightarrow> run_incrs es s')"

definition score :: "server \<Rightarrow> int \<Rightarrow> int \<Rightarrow> int" where
  \<comment> \<open>\<open>score s a b\<close>: how often \<open>b\<close> was bought with \<open>a\<close>\<close>
  "score s a b = zscore (db s (get_product_key a)) b"

definition aggregate :: "server \<Rightarrow> int list \<Rightarrow> int \<Rightarrow> int" where
  \<comment> \<open>the score of a member summed over the queried products\<close>
  "aggregate s product_ids m = sum_list (map (\<lambda>a. score s a m) product_ids)"

fun after_baskets :: "(recommender \<times> product list) list \<Rightarrow> server \<Rightarrow> server" where
  \<comment> \<open>the store after \<open>products_bought\<close> was called for one basket after the other, each
      call by a recommender of its own, whether or not it ended with an error\<close>
  "after_baskets [] s = s"
| "after_baskets (b # bs) s = after_baskets bs (snd (products_bought (fst b) (snd b) s))"

definition clear_db :: "int list \<Rightarrow> (string \<Rightarrow> zset) \<Rightarrow> (string \<Rightarrow> zset)" where
  \<comment> \<open>the database after the keys of a list of products have been deleted\<close>
  "clear_db ids d = fold (\<lambda>i d'. d'(get_product_key i := [])) ids d"

definition suggest_cmds :: "int list \<Rightarrow> cmd list" where
  \<comment> \<open>the store calls of a query for several products, in the order of the source\<close>
  "suggest_cmds ids =
     [Zunionstore (tmp_key ids) (map get_product_key ids), Zrem (tmp_key ids) ids,
      Zrange (tmp_key ids), Delete (tmp_key ids)]"

definition union_of :: "(string \<Rightarrow> zset) \<Rightarrow> int list \<Rightarrow> zset" where
  \<comment> \<open>what the union step stores under the transient key\<close>
  "union_of d ids = zunion (map d (map get_product_key ids))"

definition others_of :: "(string \<Rightarrow> zset) \<Rightarrow> int list \<Rightarrow> zset" where
  \<comment> \<open>what the removal step leaves under the transient key\<close>
  "others_of d ids = filter (\<lambda>e. fst e \<notin> set ids) (union_of d ids)"

definition queried :: "(string \<Rightarrow> zset) \<Rightarrow> int list \<Rightarrow> zset" where
  \<comment> \<open>the sorted set the range read of a query reads\<close>
  "queried d ids = (if length ids = 1 then d (get_product_key (hd ids)) else others_of d ids)"

text \<open>A small shop for the closed instances below.\<close>

definition prod_of :: "int \<Rightarrow> product" where
  "prod_of i = \<lparr>product_id = i, name = ''item'', available = True\<rparr>"

definition connected :: recommender where
  "connected = \<lparr>redis = Some Client\<rparr>"

definition empty_server :: "bool list \<Rightarrow> server" where
  "empty_server fs = \<lparr>db = (\<lambda>k. []), faults = fs, calls = []\<rparr>"

definition shop_server :: "bool list \<Rightarrow> server" where
  \<comment> \<open>the store after the baskets 1, 2, 3 and 1, 2 and 1, 4 were bought\<close>
  "shop_server fs =
     \<lparr>db = (\<lambda>k. [])(get_product_key 1 := [(2, 2), (3, 1), (4, 1)],
                      get_product_key 2 := [(1, 2), (3, 1)],
                      get_product_key 3 := [(1, 1), (2, 1)],
                      get_product_key 4 := [(1, 1)]),
      faults = fs, calls = []\<rparr>"

section \<open>Keys\<close>

lemma digit_char_inj: "a < 10 \<Longrightarrow> b < 10 \<Longrightarrow> digit_char a = digit_char b \<Longrightarrow> a = b"
proof -
  assume a: "a < 10" and b: "b < 10" and e: "digit_char a = digit_char b"
  from e have "of_char (char_of (48 + a) :: char) = (of_char (char_of (48 + b) :: char) :: nat)"
    by (simp add: digit_char_def)
  with a b show "a = b" by simp
qed

lemma digit_char_not_minus: "d < 10 \<Longrightarrow> digit_char d \<noteq> CHR ''-''"
proof
  assume d: "d < 10" and e: "digit_char d = CHR ''-''"
  from e have "of_char (char_of (48 + d) :: char) = (of_char (CHR ''-'') :: nat)"
    by (simp add: digit_char_def)
  with d show False by simp
qed

lemma str_nat_not_Nil: "str_nat n \<noteq> []"
  by (subst str_nat.simps) simp

lemma str_nat_no_minus: "CHR ''-'' \<notin> set (str_nat n)"
proof (induction n rule: str_nat.induct)
  case (1 n)
  show ?case
  proof (cases "n < 10")
    case True
    then show ?thesis using digit_char_not_minus [of n]
      by (subst str_nat.simps) auto
  next
    case False
    then show ?thesis using 1 digit_char_not_minus [of "n mod 10"]
      by (subst str_nat.simps) auto
  qed
qed

lemma str_nat_inj: "str_nat n = str_nat m \<Longrightarrow> n = m"
proof (induction n arbitrary: m rule: str_nat.induct)
  case (1 n)
  show ?case
  proof (cases "n < 10")
    case n: True
    show ?thesis
    proof (cases "m < 10")
      case True
      with n "1.prems" show ?thesis
        by (simp add: str_nat.simps [of n] str_nat.simps [of m] digit_char_inj)
    next
      case False
      with n "1.prems" str_nat_not_Nil [of "m div 10"] show ?thesis
        by (simp add: str_nat.simps [of n] str_nat.simps [of m] Cons_eq_append_conv)
    qed
  next
    case n: False
    show ?thesis
    proof (cases "m < 10")
      case True
      with n "1.prems" str_nat_not_Nil [of "n div 10"] show ?thesis
        by (simp add: str_nat.simps [of n] str_nat.simps [of m] append_eq_Cons_conv)
    next
      case False
      with n "1.prems" have e: "str_nat (n div 10) = str_nat (m div 10)"
        and d: "digit_char (n mod 10) = digit_char (m mod 10)"
        by (simp_all add: str_nat.simps [of n] str_nat.simps [of m])
      from "1.IH" [OF n e] have "n div 10 = m div 10" .
      moreover from d have "n mod 10 = m mod 10" by (simp add: digit_char_inj)
      ultimately show ?thesis by (metis div_mult_mod_eq)
    qed
  qed
qed

lemma str_int_inj: "str_int a = str_int b \<Longrightarrow> a = b"
proof -
  assume e: "str_int a = str_int b"
  have h: "\<And>n m. CHR ''-'' # str_nat n \<noteq> str_nat m"
    using str_nat_no_minus by (metis list.set_intros(1))
  show "a = b"
  proof (cases "a < 0")
    case a: True
    show ?thesis
    proof (cases "b < 0")
      case True
      with a e have "nat (- a) = nat (- b)" by (simp add: str_int_def str_nat_inj)
      with a True show ?thesis by simp
    next
      case False
      with a e h show ?thesis by (simp add: str_int_def)
    qed
  next
    case a: False
    show ?thesis
    proof (cases "b < 0")
      case True
      with a e h [of "nat (- b)" "nat a"] show ?thesis by (auto simp add: str_int_def)
    next
      case False
      with a e have "nat a = nat b" by (simp add: str_int_def str_nat_inj)
      with a False show ?thesis by simp
    qed
  qed
qed

lemma get_product_key_inj: "get_product_key a = get_product_key b \<Longrightarrow> a = b"
  by (simp add: get_product_key_def str_int_inj)

lemma get_product_key_eq_iff [simp]: "get_product_key a = get_product_key b \<longleftrightarrow> a = b"
  using get_product_key_inj by blast

section \<open>Recording a purchase\<close>

lemma issue_ok: "faults s = [] \<Longrightarrow> issue c s = (False, s\<lparr>calls := calls s @ [c]\<rparr>)"
  by (simp add: issue_def)

lemma bought_inner_run:
  "bought_inner pid ws s = run_incrs (map (Pair pid) (filter (\<lambda>b. pid \<noteq> b) ws)) s"
  by (induction ws arbitrary: s) (auto split: prod.splits sum.splits)

lemma run_incrs_append:
  "run_incrs (xs @ ys) s =
     (case run_incrs xs s of (Inl err, s') \<Rightarrow> (Inl err, s') | (Inr u, s') \<Rightarrow> run_incrs ys s')"
  by (induction xs arbitrary: s) (auto split: prod.splits sum.splits)

lemma bought_outer_run:
  "bought_outer ps product_ids s =
     run_incrs (concat (map (\<lambda>a. map (Pair a) (filter (\<lambda>b. a \<noteq> b) product_ids)) ps)) s"
  by (induction ps arbitrary: s)
     (auto simp: bought_inner_run run_incrs_append split: prod.splits sum.splits)

lemma products_bought_run:
  "redis self \<noteq> None \<Longrightarrow>
   products_bought self products s = run_incrs (ordered_pairs (map product_id products)) s"
  by (cases "redis self") (simp_all add: products_bought_def ordered_pairs_def bought_outer_run Let_def comp_def)

lemma run_incrs_ok:
  "faults s = [] \<Longrightarrow>
   run_incrs es s = (Inr (), s\<lparr>db := incr_all es (db s), calls := calls s @ map incr_cmd es\<rparr>)"
proof (induction es arbitrary: s)
  case Nil
  then show ?case by (simp add: incr_all_def)
next
  case (Cons e es)
  then show ?case
    by (simp add: zincrby_def issue_ok incr_all_def incr_cmd_def)
qed

lemma run_incrs_fail:
  "faults s = replicate n False @ True # fs \<Longrightarrow> n < length es \<Longrightarrow>
   run_incrs es s =
     (Inl RedisError,
      s\<lparr>db := incr_all (take n es) (db s), faults := fs,
        calls := calls s @ map incr_cmd (take (Suc n) es)\<rparr>)"
proof (induction es arbitrary: s n)
  case Nil
  then show ?case by simp
next
  case (Cons e es)
  show ?case
  proof (cases n)
    case 0
    with Cons.prems show ?thesis
      by (simp add: zincrby_def issue_def incr_all_def incr_cmd_def)
  next
    case (Suc k)
    with Cons.prems Cons.IH [of _ k] show ?thesis
      by (simp add: zincrby_def issue_def incr_all_def incr_cmd_def)
  qed
qed

lemma map_of_zadd_incr:
  "map_of (zadd_incr (m, v) zs) m' = (if m' = m then Some (zscore zs m + v) else map_of zs m')"
  by (simp add: zadd_incr_def update_conv')

lemma zscore_zadd_incr:
  "zscore (zadd_incr (m, v) zs) m' = (if m' = m then zscore zs m + v else zscore zs m')"
  by (simp add: zscore_def map_of_zadd_incr)

lemma incr_all_Cons:
  "incr_all (e # es) d =
     incr_all es (d(get_product_key (fst e) := zadd_incr (snd e, 1) (d (get_product_key (fst e)))))"
  by (simp add: incr_all_def)

lemma zscore_incr_all:
  "zscore (incr_all es d (get_product_key a)) b =
     zscore (d (get_product_key a)) b + int (count_list es (a, b))"
proof (induction es arbitrary: d)
  case Nil
  then show ?case by (simp add: incr_all_def)
next
  case (Cons e es)
  then show ?case
    by (cases e) (auto simp: incr_all_Cons zscore_zadd_incr)
qed

lemma map_of_incr_all_other:
  "(a, b) \<notin> set es \<Longrightarrow>
   map_of (incr_all es d (get_product_key a)) b = map_of (d (get_product_key a)) b"
proof (induction es arbitrary: d)
  case Nil
  then show ?case by (simp add: incr_all_def)
next
  case (Cons e es)
  then show ?case
    by (cases e) (auto simp: incr_all_Cons map_of_zadd_incr)
qed

lemma set_ordered_pairs:
  "set (ordered_pairs ids) = {(a, b). a \<in> set ids \<and> b \<in> set ids \<and> a \<noteq> b}"
  by (auto simp: ordered_pairs_def)

lemma ordered_pairs_product:
  "concat (map (\<lambda>a. map (Pair a) (filter (\<lambda>b. a \<noteq> b) ys)) xs) =
     filter (\<lambda>e. fst e \<noteq> snd e) (List.product xs ys)"
  by (induction xs) (simp_all add: filter_map comp_def)

lemma distinct_ordered_pairs: "distinct ids \<Longrightarrow> distinct (ordered_pairs ids)"
  by (simp add: ordered_pairs_def ordered_pairs_product distinct_product)

lemma length_filter_neq:
  "distinct ids \<Longrightarrow> a \<in> set ids \<Longrightarrow> length (filter (\<lambda>b. a \<noteq> b) ids) = length ids - 1"
proof (induction ids)
  case Nil
  then show ?case by simp
next
  case (Cons x xs)
  show ?case
  proof (cases "a = x")
    case True
    with Cons.prems have "filter (\<lambda>b. a \<noteq> b) xs = xs"
      by (auto simp: filter_id_conv)
    with True show ?thesis by simp
  next
    case False
    with Cons.prems have "a \<in> set xs" by simp
    then have "0 < length xs" by (rule length_pos_if_in_set)
    with False Cons show ?thesis by simp
  qed
qed

lemma length_ordered_pairs:
  "distinct ids \<Longrightarrow> length (ordered_pairs ids) = length ids * (length ids - 1)"
proof -
  assume d: "distinct ids"
  have "length (ordered_pairs ids) = sum_list (map (\<lambda>a. length (filter (\<lambda>b. a \<noteq> b) ids)) ids)"
    by (simp add: ordered_pairs_def length_concat comp_def)
  also have "\<dots> = sum_list (map (\<lambda>a. length ids - 1) ids)"
    by (rule arg_cong [where f = sum_list], rule map_cong) (simp_all add: length_filter_neq d)
  also have "\<dots> = length ids * (length ids - 1)"
    by (simp add: sum_list_triv)
  finally show ?thesis .
qed

lemma count_list_distinct:
  "distinct xs \<Longrightarrow> x \<in> set xs \<Longrightarrow> count_list xs x = 1"
  by (induction xs) (auto simp: count_list_0_iff)


text \<open>
  Claim C1. With the store connected and every call succeeding, \<open>products_bought\<close> on
  products of distinct ids returns normally and issues exactly the increments
  \<open>zincrby(key(a), 1, b)\<close> for the ordered pairs \<open>(a, b)\<close> of different ids of the basket:
  the list of these pairs has no repetition, holds every such pair, and has
  \<open>n * (n - 1)\<close> entries for a basket of \<open>n\<close> products. Afterwards the score of \<open>b\<close> under
  the key of \<open>a\<close> is one more than before, for all different \<open>a\<close>, \<open>b\<close> of the basket (so
  both directions of every unordered pair), and under no product's key has the entry
  of that product itself changed.
\<close>

theorem products_bought_symmetric:
  assumes "redis self \<noteq> None" and "faults s = []" and "distinct (map product_id products)"
  shows "\<exists>s'. products_bought self products s = (Inr (), s') \<and>
           calls s' = calls s @ map incr_cmd (ordered_pairs (map product_id products)) \<and>
           distinct (ordered_pairs (map product_id products)) \<and>
           set (ordered_pairs (map product_id products)) =
             {(a, b). a \<in> product_id ` set products \<and> b \<in> product_id ` set products \<and> a \<noteq> b} \<and>
           length (ordered_pairs (map product_id products)) = length products * (length products - 1) \<and>
           (\<forall>a \<in> product_id ` set products. \<forall>b \<in> product_id ` set products.
              a \<noteq> b \<longrightarrow> score s' a b = score s a b + 1) \<and>
           (\<forall>p. map_of (db s' (get_product_key p)) p = map_of (db s (get_product_key p)) p)"
proof -
  let ?ids = "map product_id products"
  let ?s' = "s\<lparr>db := incr_all (ordered_pairs ?ids) (db s),
               calls := calls s @ map incr_cmd (ordered_pairs ?ids)\<rparr>"
  have run: "products_bought self products s = (Inr (), ?s')"
    using assms(1,2) by (simp add: products_bought_run run_incrs_ok)
  have dist: "distinct (ordered_pairs ?ids)"
    using assms(3) by (rule distinct_ordered_pairs)
  have set_eq: "set (ordered_pairs ?ids) =
      {(a, b). a \<in> product_id ` set products \<and> b \<in> product_id ` set products \<and> a \<noteq> b}"
    by (simp add: set_ordered_pairs)
  have len: "length (ordered_pairs ?ids) = length products * (length products - 1)"
    using length_ordered_pairs [OF assms(3)] by simp
  have up: "score ?s' a b = score s a b + 1"
    if "a \<in> product_id ` set products" "b \<in> product_id ` set products" "a \<noteq> b" for a b
  proof -
    from that have "(a, b) \<in> set (ordered_pairs ?ids)" by (simp add: set_ordered_pairs)
    with dist have "count_list (ordered_pairs ?ids) (a, b) = 1" by (rule count_list_distinct)
    then show ?thesis by (simp add: score_def zscore_incr_all)
  qed
  have self: "map_of (db ?s' (get_product_key p)) p = map_of (db s (get_product_key p)) p" for p
    by (simp add: map_of_incr_all_other set_ordered_pairs)
  show ?thesis
  proof (rule exI [of _ ?s'], intro conjI)
    show "products_bought self products s = (Inr (), ?s')" by (rule run)
    show "calls ?s' = calls s @ map incr_cmd (ordered_pairs ?ids)" by simp
    show "distinct (ordered_pairs ?ids)" by (rule dist)
    show "set (ordered_pairs ?ids) =
      {(a, b). a \<in> product_id ` set products \<and> b \<in> product_id ` set products \<and> a \<noteq> b}"
      by (rule set_eq)
    show "length (ordered_pairs ?ids) = length products * (length products - 1)" by (rule len)
    show "\<forall>a \<in> product_id ` set products. \<forall>b \<in> product_id ` set products.
              a \<noteq> b \<longrightarrow> score ?s' a b = score s a b + 1"
      using up by blast
    show "\<forall>p. map_of (db ?s' (get_product_key p)) p = map_of (db s (get_product_key p)) p"
      using self by blast
  qed
qed

text \<open>The basket of the products 1, 2, 3 bought on an empty store.\<close>

theorem products_bought_symmetric_witness:
  "redis connected \<noteq> None \<and> faults (empty_server []) = [] \<and>
   distinct (map product_id [prod_of 1, prod_of 2, prod_of 3]) \<and>
   (\<exists>s'. products_bought connected [prod_of 1, prod_of 2, prod_of 3] (empty_server []) = (Inr (), s') \<and>
      calls s' = [Zincrby (get_product_key 1) 1 2, Zincrby (get_product_key 1) 1 3,
                  Zincrby (get_product_key 2) 1 1, Zincrby (get_product_key 2) 1 3,
                  Zincrby (get_product_key 3) 1 1, Zincrby (get_product_key 3) 1 2] \<and>
      score s' 1 2 = 1 \<and> score s' 2 1 = 1 \<and> score s' 3 1 = 1 \<and> score s' 1 1 = 0)"
proof -
  let ?ps = "[prod_of 1, prod_of 2, prod_of 3]"
  have h1: "redis connected \<noteq> None" by (simp add: connected_def)
  have h2: "faults (empty_server []) = []" by (simp add: empty_server_def)
  have h3: "distinct (map product_id ?ps)" by (simp add: prod_of_def)
  from products_bought_symmetric [OF h1 h2 h3] obtain s' where
    r: "products_bought connected ?ps (empty_server []) = (Inr (), s')" and
    c: "calls s' = calls (empty_server []) @ map incr_cmd (ordered_pairs (map product_id ?ps))" and
    u: "\<forall>a \<in> product_id ` set ?ps. \<forall>b \<in> product_id ` set ?ps.
              a \<noteq> b \<longrightarrow> score s' a b = score (empty_server []) a b + 1" and
    n: "\<forall>p. map_of (db s' (get_product_key p)) p = map_of (db (empty_server []) (get_product_key p)) p"
    by blast
  from c have c': "calls s' = [Zincrby (get_product_key 1) 1 2, Zincrby (get_product_key 1) 1 3,
                  Zincrby (get_product_key 2) 1 1, Zincrby (get_product_key 2) 1 3,
                  Zincrby (get_product_key 3) 1 1, Zincrby (get_product_key 3) 1 2]"
    by (simp add: empty_server_def prod_of_def ordered_pairs_def incr_cmd_def)
  have z: "score (empty_server []) a b = 0" for a b
    by (simp add: score_def zscore_def empty_server_def)
  from u have "score s' 1 2 = 1" "score s' 2 1 = 1" "score s' 3 1 = 1"
    by (simp_all add: prod_of_def z)
  moreover from n [rule_format, of 1] have "score s' 1 1 = 0"
    by (simp add: score_def zscore_def empty_server_def)
  ultimately have "products_bought connected ?ps (empty_server []) = (Inr (), s') \<and>
      calls s' = [Zincrby (get_product_key 1) 1 2, Zincrby (get_product_key 1) 1 3,
                  Zincrby (get_product_key 2) 1 1, Zincrby (get_product_key 2) 1 3,
                  Zincrby (get_product_key 3) 1 1, Zincrby (get_product_key 3) 1 2] \<and>
      score s' 1 2 = 1 \<and> score s' 2 1 = 1 \<and> score s' 3 1 = 1 \<and> score s' 1 1 = 0"
    using r c' by simp
  then have "\<exists>s'. products_bought connected ?ps (empty_server []) = (Inr (), s') \<and>
      calls s' = [Zincrby (get_product_key 1) 1 2, Zincrby (get_product_key 1) 1 3,
                  Zincrby (get_product_key 2) 1 1, Zincrby (get_product_key 2) 1 3,
                  Zincrby (get_product_key 3) 1 1, Zincrby (get_product_key 3) 1 2] \<and>
      score s' 1 2 = 1 \<and> score s' 2 1 = 1 \<and> score s' 3 1 = 1 \<and> score s' 1 1 = 0"
    by (rule exI)
  with h1 h2 h3 show ?thesis by (intro conjI)
qed

section \<open>Queries: the store calls\<close>

lemma suggestions_multi_first_call:
  "length products \<noteq> 1 \<Longrightarrow>
   \<exists>cs. calls (snd (suggestions_for products k s)) =
     calls s @ Zunionstore (tmp_key (map product_id products))
                 (map get_product_key (map product_id products)) # cs"
  by (auto simp: suggestions_for_def zunionstore_def zrem_def zrange_desc_def delete_key_def
        issue_def Let_def split: list.splits bool.splits)

lemma suggestions_multi_fail0:
  "length products \<noteq> 1 \<Longrightarrow> faults s = True # fs \<Longrightarrow>
   suggestions_for products k s =
     (Inl RedisError,
      s\<lparr>faults := fs, calls := calls s @ take 1 (suggest_cmds (map product_id products))\<rparr>)"
  by (simp add: suggestions_for_def zunionstore_def issue_def suggest_cmds_def)

lemma suggestions_multi_fail1:
  "length products \<noteq> 1 \<Longrightarrow> products \<noteq> [] \<Longrightarrow> faults s = False # True # fs \<Longrightarrow>
   suggestions_for products k s =
     (Inl RedisError,
      s\<lparr>db := (db s)(tmp_key (map product_id products) := union_of (db s) (map product_id products)),
        faults := fs, calls := calls s @ take 2 (suggest_cmds (map product_id products))\<rparr>)"
  by (simp add: suggestions_for_def zunionstore_def zrem_def issue_def suggest_cmds_def
        union_of_def Let_def)

lemma suggestions_multi_fail2:
  "length products \<noteq> 1 \<Longrightarrow> products \<noteq> [] \<Longrightarrow> faults s = False # False # True # fs \<Longrightarrow>
   suggestions_for products k s =
     (Inl RedisError,
      s\<lparr>db := (db s)(tmp_key (map product_id products) := others_of (db s) (map product_id products)),
        faults := fs, calls := calls s @ take 3 (suggest_cmds (map product_id products))\<rparr>)"
  by (simp add: suggestions_for_def zunionstore_def zrem_def zrange_desc_def issue_def
        suggest_cmds_def union_of_def others_of_def Let_def)

lemma suggestions_multi_fail3:
  "length products \<noteq> 1 \<Longrightarrow> products \<noteq> [] \<Longrightarrow> faults s = False # False # False # True # fs \<Longrightarrow>
   suggestions_for products k s =
     (Inl RedisError,
      s\<lparr>db := (db s)(tmp_key (map product_id products) := others_of (db s) (map product_id products)),
        faults := fs, calls := calls s @ suggest_cmds (map product_id products)\<rparr>)"
  by (simp add: suggestions_for_def zunionstore_def zrem_def zrange_desc_def delete_key_def issue_def
        suggest_cmds_def union_of_def others_of_def Let_def)

lemma suggestions_multi_ok:
  "length products \<noteq> 1 \<Longrightarrow> products \<noteq> [] \<Longrightarrow> faults s = [] \<Longrightarrow>
   suggestions_for products k s =
     (Inr (slice_to (zrevrange_all (others_of (db s) (map product_id products))) k),
      s\<lparr>db := (db s)(tmp_key (map product_id products) := []),
        calls := calls s @ suggest_cmds (map product_id products)\<rparr>)"
  by (simp add: suggestions_for_def zunionstore_def zrem_def zrange_desc_def delete_key_def issue_def
        suggest_cmds_def union_of_def others_of_def Let_def)

lemma suggestions_single_ok:
  "faults s = [] \<Longrightarrow>
   suggestions_for [p] k s =
     (Inr (slice_to (zrevrange_all (db s (get_product_key (product_id p)))) k),
      s\<lparr>calls := calls s @ [Zrange (get_product_key (product_id p))]\<rparr>)"
  by (simp add: suggestions_for_def zrange_desc_def issue_def)

lemma suggestions_single_fail:
  "faults s = True # fs \<Longrightarrow>
   suggestions_for [p] k s =
     (Inl RedisError,
      s\<lparr>faults := fs, calls := calls s @ [Zrange (get_product_key (product_id p))]\<rparr>)"
  by (simp add: suggestions_for_def zrange_desc_def issue_def)

lemma suggest_error:
  "redis self \<noteq> None \<Longrightarrow> suggestions_for products k s = (Inl e, s') \<Longrightarrow>
   suggest_products_for self products k catalog s = (Inl e, s')"
  by (cases "redis self") (simp_all add: suggest_products_for_def)

lemma suggest_result:
  "redis self \<noteq> None \<Longrightarrow> suggestions_for products k s = (Inr ids, s') \<Longrightarrow>
   suggest_products_for self products k catalog s =
     (sort_by_rank ids (objects_filter_id_in catalog ids), s')"
  by (cases "redis self") (simp_all add: suggest_products_for_def)

section \<open>Without a connection; clearing\<close>

lemma sort_by_rank_Nil: "sort_by_rank ids [] = Inr []"
  by (simp add: sort_by_rank_def)

lemma objects_filter_Nil: "objects_filter_id_in catalog [] = []"
  by (simp add: objects_filter_id_in_def)

lemma slice_to_Nil: "slice_to [] k = []"
  by (simp add: slice_to_def)

lemma init_failed: "faults s = True # fs \<Longrightarrow> redis (fst (init s)) = None"
  by (simp add: init_def ping_def issue_def)

text \<open>
  Claim C7. When the ping at construction raises, the recommender is left without a
  connection (\<open>redis = None\<close>); from then on, in every store state and for every input,
  \<open>suggest_products_for\<close> returns the empty list, and \<open>products_bought\<close> and
  \<open>clear_purchases\<close> return, all three leaving the store state as it was: nothing is
  changed and no call is issued.
\<close>

theorem degraded_mode:
  assumes "faults s0 = True # fs"
  shows "redis (fst (init s0)) = None \<and>
         suggest_products_for (fst (init s0)) products max_results catalog s = (Inr [], s) \<and>
         products_bought (fst (init s0)) products s = (Inr (), s) \<and>
         clear_purchases (fst (init s0)) catalog s = (Inr (), s)"
proof -
  from assms have "redis (fst (init s0)) = None" by (rule init_failed)
  then show ?thesis
    by (simp add: suggest_products_for_def products_bought_def clear_purchases_def)
qed

theorem degraded_mode_witness:
  "faults (empty_server [True]) = True # [] \<and>
   redis (fst (init (empty_server [True]))) = None \<and>
   suggest_products_for (fst (init (empty_server [True]))) [prod_of 1] 5 [prod_of 1, prod_of 2]
       (snd (init (empty_server [True]))) = (Inr [], snd (init (empty_server [True]))) \<and>
   products_bought (fst (init (empty_server [True]))) [prod_of 1, prod_of 2]
       (snd (init (empty_server [True]))) = (Inr (), snd (init (empty_server [True]))) \<and>
   clear_purchases (fst (init (empty_server [True]))) [prod_of 1, prod_of 2]
       (snd (init (empty_server [True]))) = (Inr (), snd (init (empty_server [True])))"
proof -
  have h: "faults (empty_server [True]) = True # []" by (simp add: empty_server_def)
  from h degraded_mode [OF h] show ?thesis by blast
qed

lemma clear_db_apply:
  "clear_db ids d k = (if k \<in> get_product_key ` set ids then [] else d k)"
  unfolding clear_db_def by (induction ids arbitrary: d) auto

lemma clear_loop_ok:
  "faults s = [] \<Longrightarrow>
   clear_loop ids s =
     (Inr (), s\<lparr>db := clear_db ids (db s),
                calls := calls s @ map (\<lambda>i. Delete (get_product_key i)) ids\<rparr>)"
proof (induction ids arbitrary: s)
  case Nil
  then show ?case by (simp add: clear_db_def)
next
  case (Cons i ids)
  then show ?case by (simp add: delete_key_def issue_ok clear_db_def)
qed

lemma suggest_single_empty:
  assumes "redis self \<noteq> None" and "faults s = []" and "db s (get_product_key (product_id p)) = []"
  shows "fst (suggest_products_for self [p] k catalog s) = Inr []"
  using assms
  by (cases "redis self")
     (simp_all add: suggest_products_for_def suggestions_for_def zrange_desc_def issue_ok
        zrevrange_all_def slice_to_Nil objects_filter_Nil sort_by_rank_Nil)

text \<open>
  Claim C9. With the store connected and every call succeeding, after
  \<open>clear_purchases\<close> over the catalogue the query for any single product of the
  catalogue returns the empty list, whatever the bound on the number of results.
\<close>

theorem clear_is_total:
  assumes "redis self \<noteq> None" and "faults s = []" and "p \<in> set catalog"
  shows "\<exists>s1. clear_purchases self catalog s = (Inr (), s1) \<and>
           fst (suggest_products_for self [p] k catalog s1) = Inr []"
proof -
  let ?s1 = "s\<lparr>db := clear_db (map product_id catalog) (db s),
               calls := calls s @ map (\<lambda>i. Delete (get_product_key i)) (map product_id catalog)\<rparr>"
  from assms(1,2) have c: "clear_purchases self catalog s = (Inr (), ?s1)"
    by (cases "redis self") (simp_all add: clear_purchases_def clear_loop_ok)
  from assms(3) have "db ?s1 (get_product_key (product_id p)) = []"
    by (simp add: clear_db_apply)
  moreover from assms(2) have "faults ?s1 = []" by simp
  ultimately have "fst (suggest_products_for self [p] k catalog ?s1) = Inr []"
    using assms(1) by (intro suggest_single_empty)
  with c show ?thesis by blast
qed

theorem clear_is_total_witness:
  "redis connected \<noteq> None \<and> faults (shop_server []) = [] \<and>
   prod_of 1 \<in> set [prod_of 3, prod_of 1, prod_of 2] \<and>
   (\<exists>s1. clear_purchases connected [prod_of 3, prod_of 1, prod_of 2] (shop_server []) = (Inr (), s1) \<and>
      fst (suggest_products_for connected [prod_of 1] 5 [prod_of 3, prod_of 1, prod_of 2] s1) = Inr [])"
proof -
  have h1: "redis connected \<noteq> None" by (simp add: connected_def)
  have h2: "faults (shop_server []) = []" by (simp add: shop_server_def)
  have h3: "prod_of 1 \<in> set [prod_of 3, prod_of 1, prod_of 2]" by simp
  from h1 h2 h3 clear_is_total [OF h1 h2 h3, of 5] show ?thesis by (intro conjI)
qed

section \<open>Resolving the ranked ids in the catalogue\<close>

lemma index_of_None_iff: "index_of xs x = None \<longleftrightarrow> x \<notin> set xs"
  by (induction xs) auto

lemma index_of_nth: "index_of xs x = Some i \<Longrightarrow> i < length xs \<and> xs ! i = x"
  by (induction xs arbitrary: i) (auto split: if_splits)

lemma index_of_distinct_nth: "distinct xs \<Longrightarrow> i < length xs \<Longrightarrow> index_of xs (xs ! i) = Some i"
proof (induction xs arbitrary: i)
  case Nil
  then show ?case by simp
next
  case (Cons y ys)
  show ?case
  proof (cases i)
    case 0
    then show ?thesis by simp
  next
    case (Suc j)
    with Cons.prems have "ys ! j \<in> set ys" by simp
    with Cons.prems have "y \<noteq> ys ! j" by auto
    with Suc Cons show ?thesis by simp
  qed
qed

lemma rank_inj_on: "inj_on (\<lambda>x. the (index_of xs x)) (set xs)"
proof (rule inj_onI)
  fix a b
  assume a: "a \<in> set xs" and b: "b \<in> set xs"
    and e: "the (index_of xs a) = the (index_of xs b)"
  from a obtain i where i: "index_of xs a = Some i"
    using index_of_None_iff [of xs a] by (cases "index_of xs a") auto
  from b obtain j where j: "index_of xs b = Some j"
    using index_of_None_iff [of xs b] by (cases "index_of xs b") auto
  from i j e have "i = j" by simp
  with index_of_nth [OF i] index_of_nth [OF j] show "a = b" by simp
qed

lemma rank_sorted: "distinct xs \<Longrightarrow> sorted_wrt (\<lambda>a b. the (index_of xs a) \<le> the (index_of xs b)) xs"
  by (simp add: sorted_wrt_iff_nth_less index_of_distinct_nth)

lemma those_map_Some:
  "\<forall>x \<in> set xs. f x \<noteq> None \<Longrightarrow> those (map f xs) = Some (map (\<lambda>x. the (f x)) xs)"
  by (induction xs) auto

lemma sort_by_rank_Inr:
  assumes "\<forall>p \<in> set ps. product_id p \<in> set ids"
  shows "sort_by_rank ids ps =
           Inr (map snd (sort_key fst (zip (map (\<lambda>x. the (index_of ids (product_id x))) ps) ps)))"
proof -
  from assms have "\<forall>x \<in> set ps. index_of ids (product_id x) \<noteq> None"
    by (simp add: index_of_None_iff)
  then show ?thesis by (simp add: sort_by_rank_def those_map_Some)
qed

lemma decorated_sort:
  fixes f :: "'a \<Rightarrow> nat"
  defines "out \<equiv> \<lambda>xs. map snd (sort_key fst (zip (map f xs) xs))"
  shows "mset (out xs) = mset xs" and "sorted (map f (out xs))"
proof -
  let ?Z = "zip (map f xs) xs"
  let ?S = "sort_key fst ?Z"
  have e: "map snd ?Z = xs" by simp
  have "mset (map snd ?S) = mset (map snd ?Z)" unfolding mset_map by simp
  also have "\<dots> = mset xs" by (simp only: e)
  finally show "mset (out xs) = mset xs" by (simp only: out_def)
  have "\<forall>z \<in> set ?Z. fst z = f (snd z)"
    by (auto simp: set_zip)
  then have "\<forall>z \<in> set ?S. f (snd z) = fst z" by simp
  then have "map f (map snd ?S) = map fst ?S" by simp
  moreover have "sorted (map fst ?S)" by (rule sorted_sort_key)
  ultimately show "sorted (map f (out xs))" by (simp only: out_def)
qed

lemma sorted_by_inj_key_unique:
  fixes r :: "'a \<Rightarrow> nat"
  assumes "inj_on r (set xs \<union> set ys)" and "set xs = set ys"
    and "distinct xs" and "distinct ys"
    and "sorted (map r xs)" and "sorted (map r ys)"
  shows "xs = ys"
proof -
  have ix: "inj_on r (set xs)" and iy: "inj_on r (set ys)"
    using assms(1) by (auto intro: inj_on_subset)
  have "distinct (map r xs)" "distinct (map r ys)"
    using assms(3,4) ix iy by (simp_all add: distinct_map)
  moreover have "set (map r xs) = set (map r ys)" using assms(2) by simp
  ultimately have "map r xs = map r ys"
    using assms(5,6) by (intro sorted_distinct_set_unique)
  with assms(1) show ?thesis by (simp add: inj_on_map_eq_map)
qed

lemma resolve_in_rank_order:
  assumes c: "distinct (map product_id catalog)" and d: "distinct ids"
  shows "\<exists>out. sort_by_rank ids (objects_filter_id_in catalog ids) = Inr out \<and>
           map product_id out = filter (\<lambda>i. i \<in> product_id ` set catalog) ids \<and>
           set out \<subseteq> set catalog"
proof -
  define ps where "ps = objects_filter_id_in catalog ids"
  define r where "r = (\<lambda>i. the (index_of ids i))"
  define out where "out = map snd (sort_key fst (zip (map (\<lambda>x. r (product_id x)) ps) ps))"
  let ?F = "filter (\<lambda>i. i \<in> product_id ` set catalog) ids"
  have pset: "set ps = {p \<in> set catalog. product_id p \<in> set ids}"
    by (auto simp: ps_def objects_filter_id_in_def)
  have res: "sort_by_rank ids ps = Inr out"
    unfolding out_def r_def by (rule sort_by_rank_Inr) (simp add: pset)
  have ms: "mset out = mset ps" unfolding out_def by (rule decorated_sort(1))
  then have st: "set out = set ps" by (rule mset_eq_setD)
  have sub: "set out \<subseteq> set catalog" unfolding st pset by blast
  have "distinct (map product_id ps)"
    using c by (simp add: ps_def objects_filter_id_in_def distinct_map_filter)
  moreover from ms have "image_mset product_id (mset out) = image_mset product_id (mset ps)"
    by (rule arg_cong)
  then have "mset (map product_id out) = mset (map product_id ps)" by (simp only: mset_map)
  ultimately have dl: "distinct (map product_id out)"
    by (metis mset_eq_imp_distinct_iff)
  have "set (map product_id out) = product_id ` set ps" by (simp add: st)
  also have "\<dots> = set ?F" unfolding pset by auto
  finally have sl: "set (map product_id out) = set ?F" .
  have "sorted (map (\<lambda>x. r (product_id x)) out)" unfolding out_def by (rule decorated_sort(2))
  then have so: "sorted (map r (map product_id out))" by (simp add: comp_def)
  have "sorted_wrt (\<lambda>a b. r a \<le> r b) ?F"
    unfolding r_def using rank_sorted [OF d] by (rule sorted_wrt_filter)
  then have sf: "sorted (map r ?F)" by (simp add: sorted_wrt_map)
  have "set (map product_id out) \<union> set ?F \<subseteq> set ids" unfolding sl by auto
  with rank_inj_on [of ids] have "inj_on r (set (map product_id out) \<union> set ?F)"
    unfolding r_def by (rule inj_on_subset)
  then have "map product_id out = ?F"
    using sl dl d so sf by (intro sorted_by_inj_key_unique) simp_all
  with res sub show ?thesis unfolding ps_def by blast
qed

lemma suggestions_Inr:
  "suggestions_for products k s = (Inr ranked, s') \<Longrightarrow>
   ranked = slice_to (zrevrange_all (queried (db s) (map product_id products))) k"
  by (auto simp: suggestions_for_def zunionstore_def zrem_def zrange_desc_def delete_key_def
        issue_def Let_def queried_def others_of_def union_of_def hd_map
        split: list.splits bool.splits if_splits)

lemma distinct_zadd_incr: "distinct (map fst zs) \<Longrightarrow> distinct (map fst (zadd_incr e zs))"
  by (simp add: zadd_incr_def distinct_update)

lemma distinct_fold_zadd_incr:
  "distinct (map fst acc) \<Longrightarrow> distinct (map fst (fold zadd_incr es acc))"
  by (induction es arbitrary: acc) (simp_all add: distinct_zadd_incr)

lemma distinct_zunion: "distinct (map fst (zunion zss))"
  by (simp add: zunion_def distinct_fold_zadd_incr)

lemma distinct_others_of: "distinct (map fst (others_of d ids))"
  by (simp add: others_of_def union_of_def distinct_map_filter distinct_zunion)

lemma distinct_queried:
  "\<forall>a \<in> set ids. distinct (map fst (d (get_product_key a))) \<Longrightarrow>
   distinct (map fst (queried d ids))"
  by (cases ids) (auto simp: queried_def distinct_others_of)

lemma distinct_zrevrange_all: "distinct (map fst zs) \<Longrightarrow> distinct (zrevrange_all zs)"
  by (simp add: zrevrange_all_def distinct_map rev_map [symmetric])

lemma distinct_slice_to: "distinct xs \<Longrightarrow> distinct (slice_to xs k)"
  by (simp add: slice_to_def)

lemma distinct_suggestions:
  assumes "\<forall>p \<in> set products. distinct (map fst (db s (get_product_key (product_id p))))"
    and "suggestions_for products k s = (Inr ranked, s')"
  shows "distinct ranked"
proof -
  from assms(1) have "distinct (map fst (queried (db s) (map product_id products)))"
    by (intro distinct_queried) simp
  then show ?thesis
    unfolding suggestions_Inr [OF assms(2)]
    by (intro distinct_slice_to distinct_zrevrange_all)
qed

text \<open>
  Claim C8. Whatever ranked ids the store calls of a query return, the result of the
  query is made of records of the catalogue, and their ids are the ranked ids with
  those the catalogue does not hold left out, in the order of the ranking: the
  catalogue's order does not matter, an id without a record is dropped, nothing is put
  in its place and no error is raised. (The catalogue has one record per id, and the
  sorted sets read hold each member once.)
\<close>

theorem catalog_resolution:
  assumes "redis self \<noteq> None" and "distinct (map product_id catalog)"
    and "\<forall>p \<in> set products. distinct (map fst (db s (get_product_key (product_id p))))"
    and "suggestions_for products k s = (Inr ranked, s')"
  shows "\<exists>out. suggest_products_for self products k catalog s = (Inr out, s') \<and>
           map product_id out = filter (\<lambda>i. i \<in> product_id ` set catalog) ranked \<and>
           set out \<subseteq> set catalog"
proof -
  from assms(3,4) have "distinct ranked" by (rule distinct_suggestions)
  with assms(2) obtain out where
    "sort_by_rank ranked (objects_filter_id_in catalog ranked) = Inr out"
    "map product_id out = filter (\<lambda>i. i \<in> product_id ` set catalog) ranked"
    "set out \<subseteq> set catalog"
    using resolve_in_rank_order by blast
  moreover from assms(1,4) have
    "suggest_products_for self products k catalog s =
       (sort_by_rank ranked (objects_filter_id_in catalog ranked), s')"
    by (rule suggest_result)
  ultimately show ?thesis by simp
qed

lemma shop_server_key1: "db (shop_server fs) (get_product_key 1) = [(2, 2), (3, 1), (4, 1)]"
  by (simp add: shop_server_def)

lemma zrevrange_all_tie: "zrevrange_all [(2, 2), (3, 1), (4, 1)] = [2, 4, 3]"
  by code_simp

text \<open>Product 4 is ranked but no longer in the catalogue.\<close>

theorem catalog_resolution_witness:
  "redis connected \<noteq> None \<and> distinct (map product_id [prod_of 3, prod_of 1, prod_of 2]) \<and>
   distinct (map fst (db (shop_server []) (get_product_key (product_id (prod_of 1))))) \<and>
   suggestions_for [prod_of 1] 5 (shop_server []) =
     (Inr [2, 4, 3], (shop_server [])\<lparr>calls := [Zrange (get_product_key 1)]\<rparr>) \<and>
   (\<exists>out. suggest_products_for connected [prod_of 1] 5 [prod_of 3, prod_of 1, prod_of 2] (shop_server []) =
            (Inr out, (shop_server [])\<lparr>calls := [Zrange (get_product_key 1)]\<rparr>) \<and>
          map product_id out = [2, 3] \<and> set out \<subseteq> set [prod_of 3, prod_of 1, prod_of 2])"
proof -
  have h1: "redis connected \<noteq> None" by (simp add: connected_def)
  have h2: "distinct (map product_id [prod_of 3, prod_of 1, prod_of 2])" by (simp add: prod_of_def)
  have h3: "\<forall>p \<in> set [prod_of 1]. distinct (map fst (db (shop_server []) (get_product_key (product_id p))))"
    by (simp add: prod_of_def shop_server_key1)
  have f: "faults (shop_server []) = []" "calls (shop_server []) = []"
    by (simp_all add: shop_server_def)
  have h4: "suggestions_for [prod_of 1] 5 (shop_server []) =
     (Inr [2, 4, 3], (shop_server [])\<lparr>calls := [Zrange (get_product_key 1)]\<rparr>)"
    by (simp add: suggestions_single_ok f prod_of_def shop_server_key1 zrevrange_all_tie slice_to_def)
  have "filter (\<lambda>i. i \<in> product_id ` set [prod_of 3, prod_of 1, prod_of 2]) [2, 4, 3] = [2, 3]"
    by (simp add: prod_of_def)
  with catalog_resolution [OF h1 h2 h3 h4] have
    "\<exists>out. suggest_products_for connected [prod_of 1] 5 [prod_of 3, prod_of 1, prod_of 2] (shop_server []) =
            (Inr out, (shop_server [])\<lparr>calls := [Zrange (get_product_key 1)]\<rparr>) \<and>
          map product_id out = [2, 3] \<and> set out \<subseteq> set [prod_of 3, prod_of 1, prod_of 2]"
    by simp
  moreover from h3
  have "distinct (map fst (db (shop_server []) (get_product_key (product_id (prod_of 1)))))"
    by simp
  ultimately show ?thesis using h1 h2 h4 by (intro conjI)
qed

section \<open>Scores and ranking\<close>

lemma zscore_fold_zadd_incr:
  "zscore (fold zadd_incr es acc) m =
     zscore acc m + sum_list (map snd (filter (\<lambda>e. fst e = m) es))"
proof (induction es arbitrary: acc)
  case Nil
  then show ?case by simp
next
  case (Cons e es)
  have "zscore (zadd_incr e acc) m = (if m = fst e then zscore acc (fst e) + snd e else zscore acc m)"
    using zscore_zadd_incr [of "fst e" "snd e" acc m] by simp
  with Cons show ?case by auto
qed

lemma zscore_entry: "distinct (map fst zs) \<Longrightarrow> (m, v) \<in> set zs \<Longrightarrow> zscore zs m = v"
  by (simp add: zscore_def)

lemma sum_member_entries:
  "distinct (map fst zs) \<Longrightarrow> sum_list (map snd (filter (\<lambda>e. fst e = m) zs)) = zscore zs m"
proof (induction zs)
  case Nil
  then show ?case by (simp add: zscore_def)
next
  case (Cons e zs)
  show ?case
  proof (cases "fst e = m")
    case True
    with Cons.prems have "m \<notin> fst ` set zs" by auto
    then have "filter (\<lambda>e. fst e = m) zs = []" by (auto simp: filter_empty_conv)
    with True show ?thesis by (cases e) (simp add: zscore_def)
  next
    case False
    with Cons show ?thesis by (cases e) (auto simp: zscore_def)
  qed
qed

lemma zscore_zunion:
  "\<forall>zs \<in> set zss. distinct (map fst zs) \<Longrightarrow>
   zscore (zunion zss) m = sum_list (map (\<lambda>zs. zscore zs m) zss)"
proof -
  assume d: "\<forall>zs \<in> set zss. distinct (map fst zs)"
  have "sum_list (map snd (filter (\<lambda>e. fst e = m) (concat zss))) =
        sum_list (map (\<lambda>zs. zscore zs m) zss)"
    using d by (induction zss) (simp_all add: sum_member_entries)
  moreover have "zscore [] m = 0" by (simp add: zscore_def)
  ultimately show ?thesis
    by (simp add: zunion_def zscore_fold_zadd_incr)
qed

lemma queried_entry:
  assumes d: "\<forall>a \<in> set ids. distinct (map fst (db s (get_product_key a)))"
    and e: "(m, v) \<in> set (queried (db s) ids)"
  shows "v = aggregate s ids m"
proof (cases "length ids = 1")
  case True
  then obtain a where a: "ids = [a]" by (cases ids) auto
  with d e have "zscore (db s (get_product_key a)) m = v"
    by (intro zscore_entry) (simp_all add: queried_def)
  with a show ?thesis by (simp add: aggregate_def score_def)
next
  case False
  with e have "(m, v) \<in> set (union_of (db s) ids)"
    by (simp add: queried_def others_of_def)
  then have "zscore (union_of (db s) ids) m = v"
    unfolding union_of_def by (intro zscore_entry distinct_zunion)
  moreover have "zscore (union_of (db s) ids) m = aggregate s ids m"
    unfolding union_of_def aggregate_def score_def
    using d by (subst zscore_zunion) (simp_all add: comp_def)
  ultimately show ?thesis by simp
qed

lemma zrevrange_entries_sorted:
  fixes zs :: zset
  shows "sorted_wrt (\<lambda>x y. snd y \<le> snd x) (rev (sort_key (\<lambda>e. (snd e, str_int (fst e))) zs))"
proof -
  let ?f = "\<lambda>e :: int \<times> int. (snd e, str_int (fst e))"
  have "sorted (map ?f (sort_key ?f zs))" by (rule sorted_sort_key)
  then have "sorted_wrt (\<lambda>x y. ?f x \<le> ?f y) (sort_key ?f zs)"
    by (simp add: sorted_wrt_map)
  then have "sorted_wrt (\<lambda>x y. snd x \<le> snd y) (sort_key ?f zs)"
    by (rule sorted_wrt_mono_rel [rotated]) auto
  then show ?thesis by (simp add: sorted_wrt_rev)
qed

lemma zrevrange_all_ranked:
  fixes zs :: zset and g :: "int \<Rightarrow> int"
  assumes "\<forall>e \<in> set zs. snd e = g (fst e)"
  shows "sorted_wrt (\<lambda>a b. g b \<le> g a) (zrevrange_all zs)"
proof -
  let ?L = "rev (sort_key (\<lambda>e. (snd e, str_int (fst e))) zs)"
  have "sorted_wrt (\<lambda>x y. snd y \<le> snd x) ?L" by (rule zrevrange_entries_sorted)
  then have "sorted_wrt (\<lambda>x y. g (fst y) \<le> g (fst x)) ?L"
    by (rule sorted_wrt_mono_rel [rotated]) (use assms in auto)
  then show ?thesis by (simp add: zrevrange_all_def sorted_wrt_map)
qed

lemma sorted_wrt_slice_to: "sorted_wrt R xs \<Longrightarrow> sorted_wrt R (slice_to xs k)"
  by (simp add: slice_to_def sorted_wrt_take)

lemma length_slice_to: "0 \<le> k \<Longrightarrow> int (length (slice_to xs k)) \<le> k"
  by (simp add: slice_to_def)

lemma set_slice_to: "set (slice_to xs k) \<subseteq> set xs"
  by (auto simp: slice_to_def dest: in_set_takeD)

lemma set_zrevrange_all: "set (zrevrange_all zs) = fst ` set zs"
  by (simp add: zrevrange_all_def)

lemma suggest_Inr_cases:
  assumes "redis self \<noteq> None" and "suggest_products_for self products k catalog s = (Inr out, s')"
  shows "\<exists>ranked. suggestions_for products k s = (Inr ranked, s') \<and>
           sort_by_rank ranked (objects_filter_id_in catalog ranked) = Inr out"
  using assms
  by (cases "redis self")
     (auto simp: suggest_products_for_def split: prod.splits sum.splits)

lemma suggest_None:
  "redis self = None \<Longrightarrow> suggest_products_for self products k catalog s = (Inr out, s') \<Longrightarrow> out = []"
  by (simp add: suggest_products_for_def)

lemma sort_by_rank_ids:
  assumes "sort_by_rank ranked (objects_filter_id_in catalog ranked) = Inr out"
  shows "product_id ` set out \<subseteq> set ranked"
proof -
  let ?ps = "objects_filter_id_in catalog ranked"
  have m: "\<forall>p \<in> set ?ps. product_id p \<in> set ranked" by (simp add: objects_filter_id_in_def)
  from sort_by_rank_Inr [OF m] assms
  have "out = map snd (sort_key fst (zip (map (\<lambda>x. the (index_of ranked (product_id x))) ?ps) ?ps))"
    by simp
  then have "mset out = mset ?ps" by (simp only: decorated_sort(1))
  then have "set out = set ?ps" by (rule mset_eq_setD)
  with m show ?thesis by auto
qed

text \<open>
  Claim C3. For a positive bound \<open>k\<close>, a query that returns (for one product or for
  several) returns at most \<open>k\<close> products, and along the returned sequence the aggregate
  score (the sum, over the queried products, of the member's score under that
  product's key, as it was when the query started) never increases. (The catalogue
  has one record per id, and the sorted sets of the queried products hold each member
  once.)
\<close>

theorem top_k_ranked:
  assumes "0 < k" and "distinct (map product_id catalog)"
    and "\<forall>p \<in> set products. distinct (map fst (db s (get_product_key (product_id p))))"
    and "suggest_products_for self products k catalog s = (Inr out, s')"
  shows "int (length out) \<le> k \<and>
         sorted_wrt (\<lambda>a b. aggregate s (map product_id products) b
                            \<le> aggregate s (map product_id products) a)
           (map product_id out)"
proof (cases "redis self = None")
  case True
  from this assms(4) have "out = []" by (rule suggest_None)
  with assms(1) show ?thesis by simp
next
  case False
  let ?ids = "map product_id products"
  let ?agg = "aggregate s ?ids"
  from False assms(4) obtain ranked where
    r: "suggestions_for products k s = (Inr ranked, s')" and
    o: "sort_by_rank ranked (objects_filter_id_in catalog ranked) = Inr out"
    using suggest_Inr_cases by blast
  from assms(3) r have dr: "distinct ranked" by (rule distinct_suggestions)
  from resolve_in_rank_order [OF assms(2) dr] o
  have ids: "map product_id out = filter (\<lambda>i. i \<in> product_id ` set catalog) ranked"
    by auto
  have rk: "ranked = slice_to (zrevrange_all (queried (db s) ?ids)) k"
    using r by (rule suggestions_Inr)
  have "length (map product_id out) \<le> length ranked"
    unfolding ids by (rule length_filter_le)
  moreover have "int (length ranked) \<le> k"
    unfolding rk using assms(1) by (intro length_slice_to) simp
  ultimately have len: "int (length out) \<le> k" by simp
  have "\<forall>e \<in> set (queried (db s) ?ids). snd e = ?agg (fst e)"
  proof
    fix e assume "e \<in> set (queried (db s) ?ids)"
    then have "(fst e, snd e) \<in> set (queried (db s) ?ids)" by simp
    moreover have "\<forall>a \<in> set ?ids. distinct (map fst (db s (get_product_key a)))"
      using assms(3) by simp
    ultimately show "snd e = ?agg (fst e)" by (intro queried_entry)
  qed
  then have "sorted_wrt (\<lambda>a b. ?agg b \<le> ?agg a) (zrevrange_all (queried (db s) ?ids))"
    by (rule zrevrange_all_ranked)
  then have "sorted_wrt (\<lambda>a b. ?agg b \<le> ?agg a) ranked"
    unfolding rk by (rule sorted_wrt_slice_to)
  then have "sorted_wrt (\<lambda>a b. ?agg b \<le> ?agg a) (map product_id out)"
    unfolding ids by (rule sorted_wrt_filter)
  with len show ?thesis by simp
qed

text \<open>
  The products 1 and 2 queried together: 3 (aggregate 2) comes before 4 (aggregate 1),
  although the catalogue lists 4 first.
\<close>

lemma shop_query_12:
  "fst (suggest_products_for connected [prod_of 1, prod_of 2] 5
          [prod_of 4, prod_of 3, prod_of 2, prod_of 1] (shop_server [])) = Inr [prod_of 3, prod_of 4]"
  by code_simp

lemma shop_server_distinct:
  "distinct (map fst (db (shop_server fs) (get_product_key 1)))"
  "distinct (map fst (db (shop_server fs) (get_product_key 2)))"
  by (simp_all add: shop_server_def)

theorem top_k_ranked_witness:
  "(0::int) < 5 \<and> distinct (map product_id [prod_of 4, prod_of 3, prod_of 2, prod_of 1]) \<and>
   distinct (map fst (db (shop_server []) (get_product_key (product_id (prod_of 1))))) \<and>
   distinct (map fst (db (shop_server []) (get_product_key (product_id (prod_of 2))))) \<and>
   fst (suggest_products_for connected [prod_of 1, prod_of 2] 5
         [prod_of 4, prod_of 3, prod_of 2, prod_of 1] (shop_server [])) = Inr [prod_of 3, prod_of 4] \<and>
   int (length [prod_of 3, prod_of 4]) \<le> 5 \<and>
   sorted_wrt (\<lambda>a b. aggregate (shop_server []) (map product_id [prod_of 1, prod_of 2]) b
                      \<le> aggregate (shop_server []) (map product_id [prod_of 1, prod_of 2]) a)
     (map product_id [prod_of 3, prod_of 4])"
proof -
  let ?cat = "[prod_of 4, prod_of 3, prod_of 2, prod_of 1]"
  let ?q = "suggest_products_for connected [prod_of 1, prod_of 2] 5 ?cat (shop_server [])"
  have h1: "(0::int) < 5" by simp
  have h2: "distinct (map product_id ?cat)" by (simp add: prod_of_def)
  have h3: "\<forall>p \<in> set [prod_of 1, prod_of 2].
      distinct (map fst (db (shop_server []) (get_product_key (product_id p))))"
    by (simp add: prod_of_def shop_server_distinct)
  have h4: "?q = (Inr [prod_of 3, prod_of 4], snd ?q)"
    using shop_query_12 by (metis prod.collapse)
  have h3': "distinct (map fst (db (shop_server []) (get_product_key (product_id (prod_of 1)))))"
    "distinct (map fst (db (shop_server []) (get_product_key (product_id (prod_of 2)))))"
    using h3 by simp_all
  from top_k_ranked [OF h1 h2 h3 h4] have
    "int (length [prod_of 3, prod_of 4]) \<le> 5"
    "sorted_wrt (\<lambda>a b. aggregate (shop_server []) (map product_id [prod_of 1, prod_of 2]) b
                      \<le> aggregate (shop_server []) (map product_id [prod_of 1, prod_of 2]) a)
       (map product_id [prod_of 3, prod_of 4])"
    by blast+
  with h1 h2 h3' shop_query_12 show ?thesis by (intro conjI)
qed

section \<open>No product is suggested for itself\<close>

lemma dom_zadd_incr: "fst ` set (zadd_incr e zs) = insert (fst e) (fst ` set zs)"
  by (simp add: zadd_incr_def dom_update)

lemma zincrby_db:
  "db (snd (zincrby nm amount member s)) = db s \<or>
   db (snd (zincrby nm amount member s)) = (db s)(nm := zadd_incr (member, amount) (db s nm))"
  by (auto simp: zincrby_def issue_def split: list.splits bool.splits)

lemma zincrby_no_self:
  assumes "\<forall>p. p \<notin> fst ` set (db s (get_product_key p))" and "a \<noteq> b"
  shows "\<forall>p. p \<notin> fst ` set (db (snd (zincrby (get_product_key a) 1 b s)) (get_product_key p))"
proof
  fix p
  from zincrby_db [of "get_product_key a" 1 b s]
  show "p \<notin> fst ` set (db (snd (zincrby (get_product_key a) 1 b s)) (get_product_key p))"
  proof
    assume "db (snd (zincrby (get_product_key a) 1 b s)) = db s"
    with assms(1) show ?thesis by simp
  next
    assume e: "db (snd (zincrby (get_product_key a) 1 b s)) =
      (db s)(get_product_key a := zadd_incr (b, 1) (db s (get_product_key a)))"
    show ?thesis
    proof (cases "p = a")
      case True
      with assms e show ?thesis by (simp add: dom_zadd_incr)
    next
      case False
      with assms(1) e show ?thesis by simp
    qed
  qed
qed

lemma run_incrs_no_self:
  "\<forall>e \<in> set es. fst e \<noteq> snd e \<Longrightarrow> \<forall>p. p \<notin> fst ` set (db s (get_product_key p)) \<Longrightarrow>
   \<forall>p. p \<notin> fst ` set (db (snd (run_incrs es s)) (get_product_key p))"
proof (induction es arbitrary: s)
  case Nil
  then show ?case by simp
next
  case (Cons e es)
  let ?z = "zincrby (get_product_key (fst e)) 1 (snd e) s"
  obtain r s1 where z: "?z = (r, s1)" by (cases ?z)
  from Cons.prems have "\<forall>p. p \<notin> fst ` set (db (snd ?z) (get_product_key p))"
    by (intro zincrby_no_self) simp_all
  with z have inv: "\<forall>p. p \<notin> fst ` set (db s1 (get_product_key p))" by simp
  show ?case
  proof (cases r)
    case (Inl err)
    with z have "run_incrs (e # es) s = (Inl err, s1)" by simp
    with inv show ?thesis by simp
  next
    case (Inr v)
    with z have "run_incrs (e # es) s = run_incrs es s1" by simp
    moreover from Cons.prems have "\<forall>e \<in> set es. fst e \<noteq> snd e" by simp
    ultimately show ?thesis using Cons.IH [OF _ inv] by simp
  qed
qed

lemma products_bought_no_self:
  assumes "\<forall>p. p \<notin> fst ` set (db s (get_product_key p))"
  shows "\<forall>p. p \<notin> fst ` set (db (snd (products_bought self products s)) (get_product_key p))"
proof (cases "redis self = None")
  case True
  with assms show ?thesis by (simp add: products_bought_def)
next
  case False
  have "\<forall>e \<in> set (ordered_pairs (map product_id products)). fst e \<noteq> snd e"
    by (auto simp: set_ordered_pairs)
  then show ?thesis
    unfolding products_bought_run [OF False] using assms by (rule run_incrs_no_self)
qed

lemma after_baskets_no_self:
  "\<forall>p. p \<notin> fst ` set (db s (get_product_key p)) \<Longrightarrow>
   \<forall>p. p \<notin> fst ` set (db (after_baskets bs s) (get_product_key p))"
proof (induction bs arbitrary: s)
  case Nil
  then show ?case by simp
next
  case (Cons b bs)
  from Cons.prems
  have "\<forall>p. p \<notin> fst ` set (db (snd (products_bought (fst b) (snd b) s)) (get_product_key p))"
    by (rule products_bought_no_self)
  then show ?case using Cons.IH by simp
qed

lemma queried_excludes:
  assumes "\<forall>p. p \<notin> fst ` set (d (get_product_key p))" and "a \<in> set ids"
  shows "a \<notin> fst ` set (queried d ids)"
proof (cases "length ids = 1")
  case True
  with assms(2) have "ids = [a]" by (cases ids) auto
  with assms(1) show ?thesis by (simp add: queried_def)
next
  case False
  with assms(2) show ?thesis by (auto simp: queried_def others_of_def)
qed

text \<open>
  Claim C2. In every store state reached from an empty store by calls of
  \<open>products_bought\<close> (on baskets of distinct products, and on any others), the products
  a query returns include none of the queried products, for one queried product (no
  product is ever a member of its own sorted set) and for several (the queried ids are
  removed from the union), whatever the bound on the number of results.
\<close>

theorem suggest_excludes_queried:
  assumes "suggest_products_for self products k catalog (after_baskets baskets (empty_server fs)) =
             (Inr out, s')"
  shows "\<forall>q \<in> set products. product_id q \<notin> product_id ` set out"
proof (cases "redis self = None")
  case True
  from this assms have "out = []" by (rule suggest_None)
  then show ?thesis by simp
next
  case False
  let ?ids = "map product_id products"
  let ?s = "after_baskets baskets (empty_server fs)"
  from False assms obtain ranked where
    r: "suggestions_for products k ?s = (Inr ranked, s')" and
    o: "sort_by_rank ranked (objects_filter_id_in catalog ranked) = Inr out"
    using suggest_Inr_cases by blast
  from o have "product_id ` set out \<subseteq> set ranked" by (rule sort_by_rank_ids)
  also have "set ranked \<subseteq> fst ` set (queried (db ?s) ?ids)"
    unfolding suggestions_Inr [OF r] using set_slice_to set_zrevrange_all by fastforce
  finally have sub: "product_id ` set out \<subseteq> fst ` set (queried (db ?s) ?ids)" .
  have "\<forall>p. p \<notin> fst ` set (db (empty_server fs) (get_product_key p))"
    by (simp add: empty_server_def)
  then have inv: "\<forall>p. p \<notin> fst ` set (db ?s (get_product_key p))"
    by (rule after_baskets_no_self)
  show ?thesis
  proof
    fix q assume "q \<in> set products"
    then have "product_id q \<in> set ?ids" by simp
    with inv have "product_id q \<notin> fst ` set (queried (db ?s) ?ids)" by (rule queried_excludes)
    with sub show "product_id q \<notin> product_id ` set out" by blast
  qed
qed

text \<open>After the basket 1, 2, 3 the query for product 1 returns 3 and 2.\<close>

lemma after_basket_query_1:
  "fst (suggest_products_for connected [prod_of 1] 5 [prod_of 1, prod_of 2, prod_of 3]
     (after_baskets [(connected, [prod_of 1, prod_of 2, prod_of 3])] (empty_server []))) =
   Inr [prod_of 3, prod_of 2]"
  by code_simp

theorem suggest_excludes_queried_witness:
  "fst (suggest_products_for connected [prod_of 1] 5 [prod_of 1, prod_of 2, prod_of 3]
     (after_baskets [(connected, [prod_of 1, prod_of 2, prod_of 3])] (empty_server []))) =
   Inr [prod_of 3, prod_of 2] \<and>
   product_id (prod_of 1) \<notin> product_id ` set [prod_of 3, prod_of 2]"
proof -
  let ?q = "suggest_products_for connected [prod_of 1] 5 [prod_of 1, prod_of 2, prod_of 3]
     (after_baskets [(connected, [prod_of 1, prod_of 2, prod_of 3])] (empty_server []))"
  have h: "?q = (Inr [prod_of 3, prod_of 2], snd ?q)"
    using after_basket_query_1 by (metis prod.collapse)
  from suggest_excludes_queried [OF h]
  have "product_id (prod_of 1) \<notin> product_id ` set [prod_of 3, prod_of 2]" by simp
  with after_basket_query_1 show ?thesis by (intro conjI)
qed

section \<open>The transient key in the call\<close>

text \<open>
  Claim C5, as the code has it. The ids are joined in the order in which the products
  were given, repetitions included, without sorting: the same set of ids in another
  order gives another key.
\<close>

theorem tmp_key_order_counterexample:
  "set [1, 2 :: int] = set [2, 1] \<and> tmp_key [1, 2] \<noteq> tmp_key [2, 1] \<and>
   set [1, 2, 2 :: int] = set [1, 2] \<and> tmp_key [1, 2, 2] \<noteq> tmp_key [1, 2]"
proof -
  have "tmp_key [1, 2] \<noteq> tmp_key [2, 1]" by code_simp
  moreover have "set [1, 2 :: int] = set [2, 1]" by (simp add: insert_commute)
  moreover have "tmp_key [1, 2, 2] \<noteq> tmp_key [1, 2]" by code_simp
  moreover have "set [1, 2, 2 :: int] = set [1, 2]" by simp
  ultimately show ?thesis by (intro conjI)
qed

text \<open>
  Claim C5, amended. With a connection, a query for a number of products other than
  one first issues the union into the key made of \<open>tmp_\<close> and the decimal texts of the
  ids of the queried products, joined in the order given: the key is determined by the
  sequence of ids alone (not by the store state, the catalogue or the bound).
\<close>

theorem tmp_key_follows_sequence:
  assumes "redis self \<noteq> None" and "length products \<noteq> 1"
  shows "\<exists>cs. calls (snd (suggest_products_for self products k catalog s)) =
           calls s @ Zunionstore (''tmp_'' @ concat (map str_int (map product_id products)))
                       (map get_product_key (map product_id products)) # cs"
proof -
  obtain r s' where q: "suggestions_for products k s = (r, s')" by (cases "suggestions_for products k s")
  from assms(1) q have "snd (suggest_products_for self products k catalog s) = s'"
    by (cases "redis self"; cases r) (simp_all add: suggest_products_for_def)
  moreover from suggestions_multi_first_call [OF assms(2), of k s] q
  have "\<exists>cs. calls s' = calls s @ Zunionstore (tmp_key (map product_id products))
                 (map get_product_key (map product_id products)) # cs"
    by simp
  ultimately show ?thesis by (simp add: tmp_key_def flat_ids_def)
qed

theorem tmp_key_follows_sequence_witness:
  "redis connected \<noteq> None \<and> length [prod_of 2, prod_of 1] \<noteq> 1 \<and>
   (\<exists>cs. calls (snd (suggest_products_for connected [prod_of 2, prod_of 1] 5 [] (shop_server []))) =
           calls (shop_server []) @
           Zunionstore ''tmp_21'' [get_product_key 2, get_product_key 1] # cs)"
proof -
  have h1: "redis connected \<noteq> None" by (simp add: connected_def)
  have h2: "length [prod_of 2, prod_of 1] \<noteq> 1" by simp
  have "''tmp_'' @ concat (map str_int (map product_id [prod_of 2, prod_of 1])) = ''tmp_21''"
    by code_simp
  with tmp_key_follows_sequence [OF h1 h2, of 5 "[]" "shop_server []"]
  have "\<exists>cs. calls (snd (suggest_products_for connected [prod_of 2, prod_of 1] 5 [] (shop_server []))) =
           calls (shop_server []) @
           Zunionstore ''tmp_21'' [get_product_key 2, get_product_key 1] # cs"
    by (simp add: prod_of_def)
  with h1 h2 show ?thesis by (intro conjI)
qed

text \<open>
  The first store call of a query for a number of products other than one, stated
  with the key as the source builds it.
\<close>

lemma suggest_multi_first_call:
  assumes "redis self \<noteq> None" and "length products \<noteq> 1"
  shows "\<exists>cs. calls (snd (suggest_products_for self products k catalog s)) =
           calls s @ Zunionstore (tmp_key (map product_id products))
                       (map get_product_key (map product_id products)) # cs"
proof -
  obtain r s' where q: "suggestions_for products k s = (r, s')"
    by (cases "suggestions_for products k s")
  from assms(1) q have "snd (suggest_products_for self products k catalog s) = s'"
    by (cases "redis self"; cases r) (simp_all add: suggest_products_for_def)
  with suggestions_multi_first_call [OF assms(2), of k s] q show ?thesis by simp
qed

lemma tmp_key_123: "tmp_key [1, 23] = ''tmp_123''" "tmp_key [12, 3] = ''tmp_123''"
  by code_simp+

text \<open>
  Claim C10. The transient key is the prefix \<open>tmp_\<close> followed by the decimal digits of
  the queried ids, with nothing between them, so queries for different sets of
  products can work on the same key: with a connection, in any store state and
  for any catalogue and bound, the query for the products 1 and 23 and the query for
  the products 12 and 3 both begin with the union into the key \<open>tmp_123\<close>.
\<close>

theorem tmp_key_collision:
  "(\<exists>cs. calls (snd (suggest_products_for connected [prod_of 1, prod_of 23] k catalog s)) =
           calls s @ Zunionstore ''tmp_123'' [get_product_key 1, get_product_key 23] # cs) \<and>
   (\<exists>cs. calls (snd (suggest_products_for connected [prod_of 12, prod_of 3] k' catalog' s')) =
           calls s' @ Zunionstore ''tmp_123'' [get_product_key 12, get_product_key 3] # cs) \<and>
   set (map product_id [prod_of 1, prod_of 23]) \<noteq> set (map product_id [prod_of 12, prod_of 3])"
proof (intro conjI)
  have c: "redis connected \<noteq> None" by (simp add: connected_def)
  have i: "map product_id [prod_of 1, prod_of 23] = [1, 23]"
    "map product_id [prod_of 12, prod_of 3] = [12, 3]"
    by (simp_all add: prod_of_def)
  have "length [prod_of 1, prod_of 23] \<noteq> 1" by simp
  from suggest_multi_first_call [OF c this, of k catalog s]
  show "\<exists>cs. calls (snd (suggest_products_for connected [prod_of 1, prod_of 23] k catalog s)) =
           calls s @ Zunionstore ''tmp_123'' [get_product_key 1, get_product_key 23] # cs"
    unfolding i tmp_key_123 by simp
  have "length [prod_of 12, prod_of 3] \<noteq> 1" by simp
  from suggest_multi_first_call [OF c this, of k' catalog' s']
  show "\<exists>cs. calls (snd (suggest_products_for connected [prod_of 12, prod_of 3] k' catalog' s')) =
           calls s' @ Zunionstore ''tmp_123'' [get_product_key 12, get_product_key 3] # cs"
    unfolding i tmp_key_123 by simp
  show "set (map product_id [prod_of 1, prod_of 23]) \<noteq> set (map product_id [prod_of 12, prod_of 3])"
  proof
    assume "set (map product_id [prod_of 1, prod_of 23]) = set (map product_id [prod_of 12, prod_of 3])"
    then have "set [1, 23 :: int] = set [12, 3]" unfolding i .
    moreover have "(1::int) \<in> set [1, 23]" by simp
    ultimately have "(1::int) \<in> set [12, 3]" by (rule subst)
    then show False by simp
  qed
qed

section \<open>Store calls that raise\<close>

lemma suggest_multi_fail:
  assumes c: "redis self \<noteq> None" and m: "1 < length products"
    and f: "faults s = replicate j False @ True # fs" and j: "j < 4"
  shows "suggest_products_for self products k catalog s =
     (Inl RedisError,
      s\<lparr>db := (if j = 0 then db s
                else (db s)(tmp_key (map product_id products) :=
                       if j = 1 then union_of (db s) (map product_id products)
                       else others_of (db s) (map product_id products))),
        faults := fs,
        calls := calls s @ take (Suc j) (suggest_cmds (map product_id products))\<rparr>)"
proof -
  from m have l: "length products \<noteq> 1" and n: "products \<noteq> []" by auto
  from j consider "j = 0" | "j = 1" | "j = 2" | "j = 3" by linarith
  then show ?thesis
  proof cases
    case 1
    with f have "faults s = True # fs" by simp
    from suggest_error [OF c suggestions_multi_fail0 [OF l this]] 1
    show ?thesis by (simp add: suggest_cmds_def)
  next
    case 2
    with f have "faults s = False # True # fs" by simp
    from suggest_error [OF c suggestions_multi_fail1 [OF l n this]] 2
    show ?thesis by (simp add: suggest_cmds_def)
  next
    case 3
    with f have "faults s = False # False # True # fs" by (simp add: eval_nat_numeral)
    from suggest_error [OF c suggestions_multi_fail2 [OF l n this]] 3
    show ?thesis by (simp add: suggest_cmds_def)
  next
    case 4
    with f have "faults s = False # False # False # True # fs" by (simp add: eval_nat_numeral)
    from suggest_error [OF c suggestions_multi_fail3 [OF l n this]] 4
    show ?thesis by (simp add: suggest_cmds_def)
  qed
qed

text \<open>
  Claim C4, amended. With a connection, when a store call raises partway through an
  operation, the operation stops at that call: no later call is issued, nothing is
  retried, and what the earlier calls of the operation did stays in the store. For
  \<open>products_bought\<close>, when the increment number \<open>n\<close> (from 0) raises, the first \<open>n\<close>
  increments have taken effect. For a query for one product the range read is the
  only call. For a query for several products, when call number \<open>j\<close> (from 0: union,
  removal, range read, deletion) raises, the transient key holds the union (\<open>j = 1\<close>)
  or the union without the queried products (\<open>j = 2\<close>, \<open>j = 3\<close>).
\<close>

theorem store_failure_keeps_effects:
  assumes "redis self \<noteq> None"
  shows "(faults s = replicate n False @ True # fs \<and>
          n < length (ordered_pairs (map product_id products)) \<longrightarrow>
          snd (products_bought self products s) =
             s\<lparr>db := incr_all (take n (ordered_pairs (map product_id products))) (db s),
               faults := fs,
               calls := calls s @ map incr_cmd (take (Suc n) (ordered_pairs (map product_id products)))\<rparr>) \<and>
         (faults s = True # fs \<and> products = [p] \<longrightarrow>
          snd (suggest_products_for self products k catalog s) =
             s\<lparr>faults := fs, calls := calls s @ [Zrange (get_product_key (product_id p))]\<rparr>) \<and>
         (faults s = replicate j False @ True # fs \<and> j < 4 \<and> 1 < length products \<longrightarrow>
          snd (suggest_products_for self products k catalog s) =
             s\<lparr>db := (if j = 0 then db s
                       else (db s)(tmp_key (map product_id products) :=
                              if j = 1 then union_of (db s) (map product_id products)
                              else others_of (db s) (map product_id products))),
               faults := fs,
               calls := calls s @ take (Suc j) (suggest_cmds (map product_id products))\<rparr>)"
proof (intro conjI impI)
  assume "faults s = replicate n False @ True # fs \<and>
          n < length (ordered_pairs (map product_id products))"
  then show "snd (products_bought self products s) =
             s\<lparr>db := incr_all (take n (ordered_pairs (map product_id products))) (db s),
               faults := fs,
               calls := calls s @ map incr_cmd (take (Suc n) (ordered_pairs (map product_id products)))\<rparr>"
    using assms by (simp add: products_bought_run run_incrs_fail)
next
  assume a: "faults s = True # fs \<and> products = [p]"
  then have "suggestions_for products k s =
      (Inl RedisError,
       s\<lparr>faults := fs, calls := calls s @ [Zrange (get_product_key (product_id p))]\<rparr>)"
    by (simp add: suggestions_single_fail)
  with assms have "suggest_products_for self products k catalog s =
      (Inl RedisError,
       s\<lparr>faults := fs, calls := calls s @ [Zrange (get_product_key (product_id p))]\<rparr>)"
    by (rule suggest_error)
  then show "snd (suggest_products_for self products k catalog s) =
             s\<lparr>faults := fs, calls := calls s @ [Zrange (get_product_key (product_id p))]\<rparr>"
    by simp
next
  assume "faults s = replicate j False @ True # fs \<and> j < 4 \<and> 1 < length products"
  with assms have "suggest_products_for self products k catalog s =
            (Inl RedisError,
             s\<lparr>db := (if j = 0 then db s
                       else (db s)(tmp_key (map product_id products) :=
                              if j = 1 then union_of (db s) (map product_id products)
                              else others_of (db s) (map product_id products))),
               faults := fs,
               calls := calls s @ take (Suc j) (suggest_cmds (map product_id products))\<rparr>)"
    by (intro suggest_multi_fail) simp_all
  then show "snd (suggest_products_for self products k catalog s) =
             s\<lparr>db := (if j = 0 then db s
                       else (db s)(tmp_key (map product_id products) :=
                              if j = 1 then union_of (db s) (map product_id products)
                              else others_of (db s) (map product_id products))),
               faults := fs,
               calls := calls s @ take (Suc j) (suggest_cmds (map product_id products))\<rparr>"
    by simp
qed

text \<open>
  The second store call raises: in \<open>products_bought\<close> for the products 1 and 2, in the
  query for the products 1 and 2; and the only call of the query for product 1 raises.
\<close>

theorem store_failure_keeps_effects_witness:
  "redis connected \<noteq> None \<and>
   faults (shop_server [False, True]) = replicate 1 False @ True # [] \<and>
   1 < length (ordered_pairs (map product_id [prod_of 1, prod_of 2])) \<and>
   snd (products_bought connected [prod_of 1, prod_of 2] (shop_server [False, True])) =
      (shop_server [False, True])
        \<lparr>db := incr_all [(1, 2)] (db (shop_server [False, True])), faults := [],
          calls := [Zincrby (get_product_key 1) 1 2, Zincrby (get_product_key 2) 1 1]\<rparr> \<and>
   faults (shop_server [True]) = True # [] \<and>
   snd (suggest_products_for connected [prod_of 1] 5 [] (shop_server [True])) =
      (shop_server [True])\<lparr>faults := [], calls := [Zrange (get_product_key 1)]\<rparr> \<and>
   (1::nat) < 4 \<and> 1 < length [prod_of 1, prod_of 2] \<and>
   snd (suggest_products_for connected [prod_of 1, prod_of 2] 5 [] (shop_server [False, True])) =
      (shop_server [False, True])
        \<lparr>db := (db (shop_server [False, True]))
                 (tmp_key [1, 2] := union_of (db (shop_server [False, True])) [1, 2]),
          faults := [],
          calls := [Zunionstore (tmp_key [1, 2]) [get_product_key 1, get_product_key 2],
                    Zrem (tmp_key [1, 2]) [1, 2]]\<rparr>"
proof -
  let ?s = "shop_server [False, True]"
  let ?ps = "[prod_of 1, prod_of 2]"
  have c: "redis connected \<noteq> None" by (simp add: connected_def)
  have f: "faults ?s = replicate 1 False @ True # []" by (simp add: shop_server_def)
  have p: "ordered_pairs (map product_id ?ps) = [(1, 2), (2, 1)]"
    by (simp add: ordered_pairs_def prod_of_def)
  then have n: "1 < length (ordered_pairs (map product_id ?ps))" by simp
  have f1: "faults (shop_server [True]) = True # []" by (simp add: shop_server_def)
  have j: "(1::nat) < 4" by simp
  have l: "1 < length ?ps" by simp
  have e: "calls (shop_server fs) = []" for fs by (simp add: shop_server_def)
  have i: "map product_id ?ps = [1, 2]" "product_id (prod_of 1) = 1" by (simp_all add: prod_of_def)
  from store_failure_keeps_effects [OF c, of ?s 1 "[]" ?ps] f n
  have "snd (products_bought connected ?ps ?s) =
      ?s\<lparr>db := incr_all (take 1 (ordered_pairs (map product_id ?ps))) (db ?s), faults := [],
          calls := calls ?s @ map incr_cmd (take (Suc 1) (ordered_pairs (map product_id ?ps)))\<rparr>"
    by blast
  then have a: "snd (products_bought connected ?ps ?s) =
      ?s\<lparr>db := incr_all [(1, 2)] (db ?s), faults := [],
          calls := [Zincrby (get_product_key 1) 1 2, Zincrby (get_product_key 2) 1 1]\<rparr>"
    unfolding p by (simp add: e incr_cmd_def)
  from store_failure_keeps_effects [OF c, of "shop_server [True]" _ "[]" "[prod_of 1]" "prod_of 1"] f1
  have "snd (suggest_products_for connected [prod_of 1] 5 [] (shop_server [True])) =
      (shop_server [True])\<lparr>faults := [],
         calls := calls (shop_server [True]) @ [Zrange (get_product_key (product_id (prod_of 1)))]\<rparr>"
    by blast
  then have b: "snd (suggest_products_for connected [prod_of 1] 5 [] (shop_server [True])) =
      (shop_server [True])\<lparr>faults := [], calls := [Zrange (get_product_key 1)]\<rparr>"
    by (simp add: e i)
  from store_failure_keeps_effects [OF c, of ?s _ "[]" ?ps _ _ _ 1] f j l
  have "snd (suggest_products_for connected ?ps 5 [] ?s) =
      ?s\<lparr>db := (if (1::nat) = 0 then db ?s
                 else (db ?s)(tmp_key (map product_id ?ps) :=
                        if (1::nat) = 1 then union_of (db ?s) (map product_id ?ps)
                        else others_of (db ?s) (map product_id ?ps))),
          faults := [],
          calls := calls ?s @ take (Suc 1) (suggest_cmds (map product_id ?ps))\<rparr>"
    by blast
  then have d: "snd (suggest_products_for connected ?ps 5 [] ?s) =
      ?s\<lparr>db := (db ?s)(tmp_key [1, 2] := union_of (db ?s) [1, 2]), faults := [],
          calls := [Zunionstore (tmp_key [1, 2]) [get_product_key 1, get_product_key 2],
                    Zrem (tmp_key [1, 2]) [1, 2]]\<rparr>"
    unfolding i by (simp add: e suggest_cmds_def)
  from c f n a f1 b j l d show ?thesis by (intro conjI)
qed

text \<open>
  Claim C4, as the code has it. On the empty store, with the second store call
  raising, \<open>products_bought\<close> for the products 1 and 2 leaves the first increment in the
  store and not the second: product 2 counts as bought with product 1, but product 1
  does not count as bought with product 2.
\<close>

lemma bought_fails_midway:
  "faults (empty_server [False, True]) = [False, True]"
  "score (empty_server [False, True]) 1 2 = 0"
  "score (snd (products_bought connected [prod_of 1, prod_of 2] (empty_server [False, True]))) 1 2 = 1"
  "score (snd (products_bought connected [prod_of 1, prod_of 2] (empty_server [False, True]))) 2 1 = 0"
  "calls (snd (products_bought connected [prod_of 1, prod_of 2] (empty_server [False, True]))) =
     [Zincrby (get_product_key 1) 1 2, Zincrby (get_product_key 2) 1 1]"
  by code_simp+

theorem store_failure_counterexample:
  "redis connected \<noteq> None \<and>
   faults (empty_server [False, True]) = [False, True] \<and>
   score (empty_server [False, True]) 1 2 = 0 \<and>
   score (snd (products_bought connected [prod_of 1, prod_of 2] (empty_server [False, True]))) 1 2 = 1 \<and>
   score (snd (products_bought connected [prod_of 1, prod_of 2] (empty_server [False, True]))) 2 1 = 0 \<and>
   calls (snd (products_bought connected [prod_of 1, prod_of 2] (empty_server [False, True]))) =
     [Zincrby (get_product_key 1) 1 2, Zincrby (get_product_key 2) 1 1]"
  using bought_fails_midway by (simp add: connected_def)

text \<open>
  What the methods return when a store call raises: none of them has a handler of its
  own, so the method ends with the error of the call. The cart page queries outside
  its handler for this error; its query for one product with the bound 4, the range
  read raising, is an instance.
\<close>

lemma query_raises:
  "fst (suggest_products_for connected [prod_of 1] 4 [prod_of 1, prod_of 2] (shop_server [True])) =
     Inl RedisError"
  "fst (products_bought connected [prod_of 1, prod_of 2] (empty_server [False, True])) =
     Inl RedisError"
  by code_simp+

section \<open>The life of the transient key\<close>

lemma suggest_multi_ok:
  assumes c: "redis self \<noteq> None" and m: "1 < length products" and f: "faults s = []"
  shows "\<exists>out. suggest_products_for self products k catalog s =
     (Inr out,
      s\<lparr>db := (db s)(tmp_key (map product_id products) := []),
        calls := calls s @ suggest_cmds (map product_id products)\<rparr>)"
proof -
  let ?ranked = "slice_to (zrevrange_all (others_of (db s) (map product_id products))) k"
  from m have l: "length products \<noteq> 1" and n: "products \<noteq> []" by auto
  have "\<forall>p \<in> set (objects_filter_id_in catalog ?ranked). product_id p \<in> set ?ranked"
    by (simp add: objects_filter_id_in_def)
  from sort_by_rank_Inr [OF this] suggest_result [OF c suggestions_multi_ok [OF l n f]]
  show ?thesis by simp
qed

text \<open>
  Claim C6, amended. With a connection, a query for several products all of whose
  store calls succeed ends with the deletion of its transient key, and the key holds
  nothing afterwards. When the union, the removal or the range read raises (call
  number \<open>j < 3\<close>), the query ends with the error and no deletion is issued: the
  transient key is as it was (\<open>j = 0\<close>), holds the union (\<open>j = 1\<close>) or the union
  without the queried products (\<open>j = 2\<close>).
\<close>

theorem tmp_key_released:
  assumes "redis self \<noteq> None" and "1 < length products"
  shows "(faults s = [] \<longrightarrow>
           (\<exists>out s'. suggest_products_for self products k catalog s = (Inr out, s') \<and>
              calls s' = calls s @ suggest_cmds (map product_id products) \<and>
              last (calls s') = Delete (tmp_key (map product_id products)) \<and>
              db s' (tmp_key (map product_id products)) = [])) \<and>
         (faults s = replicate j False @ True # fs \<and> j < 3 \<longrightarrow>
           (\<exists>s'. suggest_products_for self products k catalog s = (Inl RedisError, s') \<and>
              calls s' = calls s @ take (Suc j) (suggest_cmds (map product_id products)) \<and>
              Delete (tmp_key (map product_id products))
                \<notin> set (take (Suc j) (suggest_cmds (map product_id products))) \<and>
              db s' (tmp_key (map product_id products)) =
                (if j = 0 then db s (tmp_key (map product_id products))
                 else if j = 1 then union_of (db s) (map product_id products)
                 else others_of (db s) (map product_id products))))"
proof (intro conjI impI)
  assume "faults s = []"
  with assms obtain out where
    "suggest_products_for self products k catalog s =
     (Inr out,
      s\<lparr>db := (db s)(tmp_key (map product_id products) := []),
        calls := calls s @ suggest_cmds (map product_id products)\<rparr>)"
    using suggest_multi_ok by blast
  then show "\<exists>out s'. suggest_products_for self products k catalog s = (Inr out, s') \<and>
              calls s' = calls s @ suggest_cmds (map product_id products) \<and>
              last (calls s') = Delete (tmp_key (map product_id products)) \<and>
              db s' (tmp_key (map product_id products)) = []"
    by (simp add: suggest_cmds_def)
next
  assume a: "faults s = replicate j False @ True # fs \<and> j < 3"
  then have "j < 4" by simp
  with assms a have "suggest_products_for self products k catalog s =
     (Inl RedisError,
      s\<lparr>db := (if j = 0 then db s
                else (db s)(tmp_key (map product_id products) :=
                       if j = 1 then union_of (db s) (map product_id products)
                       else others_of (db s) (map product_id products))),
        faults := fs,
        calls := calls s @ take (Suc j) (suggest_cmds (map product_id products))\<rparr>)"
    by (intro suggest_multi_fail) simp_all
  moreover from a consider "j = 0" | "j = 1" | "j = 2" by linarith
  then have "Delete (tmp_key (map product_id products))
                \<notin> set (take (Suc j) (suggest_cmds (map product_id products)))"
    by cases (simp_all add: suggest_cmds_def)
  ultimately show "\<exists>s'. suggest_products_for self products k catalog s = (Inl RedisError, s') \<and>
              calls s' = calls s @ take (Suc j) (suggest_cmds (map product_id products)) \<and>
              Delete (tmp_key (map product_id products))
                \<notin> set (take (Suc j) (suggest_cmds (map product_id products))) \<and>
              db s' (tmp_key (map product_id products)) =
                (if j = 0 then db s (tmp_key (map product_id products))
                 else if j = 1 then union_of (db s) (map product_id products)
                 else others_of (db s) (map product_id products))"
    by simp
qed

text \<open>
  Claim C6, as the code has it. When the removal raises in the query for the products
  1 and 2, the query ends with the error after two calls, none of them a deletion,
  and the transient key still holds the union.
\<close>

lemma removal_fails:
  "fst (suggest_products_for connected [prod_of 1, prod_of 2] 5 [] (shop_server [False, True])) =
     Inl RedisError"
  "db (snd (suggest_products_for connected [prod_of 1, prod_of 2] 5 [] (shop_server [False, True])))
     (tmp_key [1, 2]) = [(2, 2), (3, 2), (4, 1), (1, 2)]"
  "calls (snd (suggest_products_for connected [prod_of 1, prod_of 2] 5 [] (shop_server [False, True]))) =
     [Zunionstore (tmp_key [1, 2]) [get_product_key 1, get_product_key 2], Zrem (tmp_key [1, 2]) [1, 2]]"
  by code_simp+

theorem tmp_key_survives_counterexample:
  "redis connected \<noteq> None \<and>
   fst (suggest_products_for connected [prod_of 1, prod_of 2] 5 [] (shop_server [False, True])) =
     Inl RedisError \<and>
   db (snd (suggest_products_for connected [prod_of 1, prod_of 2] 5 [] (shop_server [False, True])))
     (tmp_key [1, 2]) = [(2, 2), (3, 2), (4, 1), (1, 2)] \<and>
   calls (snd (suggest_products_for connected [prod_of 1, prod_of 2] 5 [] (shop_server [False, True]))) =
     [Zunionstore (tmp_key [1, 2]) [get_product_key 1, get_product_key 2], Zrem (tmp_key [1, 2]) [1, 2]]"
  using removal_fails by (simp add: connected_def)

theorem tmp_key_released_witness:
  "redis connected \<noteq> None \<and> 1 < length [prod_of 1, prod_of 2] \<and>
   faults (shop_server []) = [] \<and>
   (\<exists>out s'. suggest_products_for connected [prod_of 1, prod_of 2] 5 [] (shop_server []) = (Inr out, s') \<and>
      calls s' = calls (shop_server []) @ suggest_cmds (map product_id [prod_of 1, prod_of 2]) \<and>
      last (calls s') = Delete (tmp_key (map product_id [prod_of 1, prod_of 2])) \<and>
      db s' (tmp_key (map product_id [prod_of 1, prod_of 2])) = []) \<and>
   faults (shop_server [False, True]) = replicate 1 False @ True # [] \<and> (1::nat) < 3 \<and>
   (\<exists>s'. suggest_products_for connected [prod_of 1, prod_of 2] 5 [] (shop_server [False, True]) =
           (Inl RedisError, s') \<and>
      calls s' = calls (shop_server [False, True]) @
                 take (Suc 1) (suggest_cmds (map product_id [prod_of 1, prod_of 2])) \<and>
      Delete (tmp_key (map product_id [prod_of 1, prod_of 2]))
        \<notin> set (take (Suc 1) (suggest_cmds (map product_id [prod_of 1, prod_of 2]))) \<and>
      db s' (tmp_key (map product_id [prod_of 1, prod_of 2])) =
        union_of (db (shop_server [False, True])) (map product_id [prod_of 1, prod_of 2]))"
proof -
  let ?ps = "[prod_of 1, prod_of 2]"
  have c: "redis connected \<noteq> None" by (simp add: connected_def)
  have l: "1 < length ?ps" by simp
  have f0: "faults (shop_server []) = []" by (simp add: shop_server_def)
  have f1: "faults (shop_server [False, True]) = replicate 1 False @ True # []"
    by (simp add: shop_server_def)
  have j: "(1::nat) < 3" by simp
  from tmp_key_released [OF c l, of "shop_server []"] f0
  have a: "\<exists>out s'. suggest_products_for connected ?ps 5 [] (shop_server []) = (Inr out, s') \<and>
      calls s' = calls (shop_server []) @ suggest_cmds (map product_id ?ps) \<and>
      last (calls s') = Delete (tmp_key (map product_id ?ps)) \<and>
      db s' (tmp_key (map product_id ?ps)) = []"
    by blast
  from tmp_key_released [OF c l, of "shop_server [False, True]" _ _ 1 "[]"] f1 j
  have "\<exists>s'. suggest_products_for connected ?ps 5 [] (shop_server [False, True]) =
           (Inl RedisError, s') \<and>
      calls s' = calls (shop_server [False, True]) @ take (Suc 1) (suggest_cmds (map product_id ?ps)) \<and>
      Delete (tmp_key (map product_id ?ps)) \<notin> set (take (Suc 1) (suggest_cmds (map product_id ?ps))) \<and>
      db s' (tmp_key (map product_id ?ps)) =
        (if (1::nat) = 0 then db (shop_server [False, True]) (tmp_key (map product_id ?ps))
         else if (1::nat) = 1 then union_of (db (shop_server [False, True])) (map product_id ?ps)
         else others_of (db (shop_server [False, True])) (map product_id ?ps))"
    by blast
  then have b: "\<exists>s'. suggest_products_for connected ?ps 5 [] (shop_server [False, True]) =
           (Inl RedisError, s') \<and>
      calls s' = calls (shop_server [False, True]) @ take (Suc 1) (suggest_cmds (map product_id ?ps)) \<and>
      Delete (tmp_key (map product_id ?ps)) \<notin> set (take (Suc 1) (suggest_cmds (map product_id ?ps))) \<and>
      db s' (tmp_key (map product_id ?ps)) =
        union_of (db (shop_server [False, True])) (map product_id ?ps)"
    by (simp only: if_True if_False One_nat_def nat.simps refl)
  from c l f0 a f1 j b show ?thesis by (intro conjI)
qed

end
